theory Spec2Isabelle
  imports Complex_Main "HOL-Library.Log_Nat" "HOL-Library.Char_ord" "HOL-Library.List_Lexorder"
begin

section \<open>Text\<close>

text \<open>
  A Python \<open>str\<close> is modelled as a \<open>string\<close>; a \<open>char\<close> stands for a Unicode code
  point below 256. \<open>py_isspace\<close> is \<open>str.isspace\<close> on these code points, the set that
  \<open>str.strip()\<close>, \<open>str.split()\<close> and the pattern \<open>\s\<close> use.
\<close>

definition py_isspace :: "char \<Rightarrow> bool" where
  "py_isspace c = (of_char c \<in> set [9, 10, 11, 12, 13, 28, 29, 30, 31, 32, 133, 160 :: nat])"

definition strip_chars :: "(char \<Rightarrow> bool) \<Rightarrow> string \<Rightarrow> string" where
  "strip_chars p s = rev (dropWhile p (rev (dropWhile p s)))"

definition strip :: "string \<Rightarrow> string" where
  "strip s = strip_chars py_isspace s"

definition startswith :: "string \<Rightarrow> string \<Rightarrow> bool" where
  "startswith s p = (take (length p) s = p)"

definition digit_char :: "nat \<Rightarrow> char" where
  "digit_char d = char_of (48 + d)"

function show_nat :: "nat \<Rightarrow> string" where
  "show_nat n = (if n < 10 then [digit_char n] else show_nat (n div 10) @ [digit_char (n mod 10)])"
  by pat_completeness auto
termination
  by (relation "measure id") auto

declare show_nat.simps [simp del]

definition show_int :: "int \<Rightarrow> string" where
  "show_int i = (if i < 0 then CHR ''-'' # show_nat (nat (- i)) else show_nat (nat i))"

fun join :: "string \<Rightarrow> string list \<Rightarrow> string" where
  "join sep [] = []"
| "join sep [x] = x"
| "join sep (x # y # ys) = x @ sep @ join sep (y # ys)"

section \<open>Decoded JSON and Python values\<close>

text \<open>
  What \<open>json.loads\<close> returns. A float is carried as its Python \<open>repr\<close>, the only thing
  the code observes of it besides truthiness (\<open>0.0\<close> and \<open>-0.0\<close> are the false ones).
  An object is the \<open>dict\<close>'s items in insertion order.
\<close>

datatype json =
    JNull
  | JBool bool
  | JInt int
  | JFloat string
  | JStr string
  | JList "json list"
  | JObj "(string \<times> json) list"

text \<open>A value for which \<open>isinstance(v, int)\<close> holds: an \<open>int\<close> or a \<open>bool\<close>.\<close>

datatype pyint = PInt int | PBool bool

fun int_of :: "pyint \<Rightarrow> int" where
  "int_of (PInt i) = i"
| "int_of (PBool b) = (if b then 1 else 0)"

fun show_pyint :: "pyint \<Rightarrow> string" where
  "show_pyint (PInt i) = show_int i"
| "show_pyint (PBool b) = (if b then ''True'' else ''False'')"

text \<open>
  How a call can end without returning: the exceptions \<open>TypeError\<close> and \<open>ValueError\<close>
  (with its message; \<open>JSONDecodeError\<close> is one raised by the decoder), and the two ways a
  document can leave this model (see the parser).
\<close>

datatype failure = TypeError | ValueError string | JSONDecodeError | Beyond_Latin1 | Out_Of_Fuel

text \<open>
  The environment of a call: \<open>clock n\<close> is what the \<open>n\<close>-th call of \<open>_now_utc_iso\<close>
  returns, \<open>container_repr\<close> is \<open>str()\<close> of a list or dict, \<open>float_repr\<close> the \<open>repr\<close> of the
  float a JSON number literal denotes, \<open>decode_message\<close> the message of the
  \<open>JSONDecodeError\<close> for a text. \<open>resolve\<close> is \<open>_resolve_workspace_path\<close> followed by
  \<open>_to_workspace_relative\<close>: the path relative to the workspace root, or the message of
  the \<open>ValueError\<close> for a path outside it; \<open>as_posix\<close> is the absolute form of a
  resolved path. \<open>read_error\<close>, \<open>write_error\<close> and \<open>unlink_error\<close> give
  the message of the \<open>OSError\<close> when reading, writing (or creating the parent
  directories of) or deleting the file at a path fails.
\<close>

record env =
  clock :: "nat \<Rightarrow> string"
  container_repr :: "json \<Rightarrow> string"
  float_repr :: "string \<Rightarrow> string"
  decode_message :: "string \<Rightarrow> string"
  resolve :: "string \<Rightarrow> string + string"
  as_posix :: "string \<Rightarrow> string"
  read_error :: "string \<Rightarrow> string option"
  write_error :: "string \<Rightarrow> string option"
  unlink_error :: "string \<Rightarrow> string option"

fun py_str :: "env \<Rightarrow> json \<Rightarrow> string" where
  "py_str e JNull = ''None''"
| "py_str e (JBool b) = (if b then ''True'' else ''False'')"
| "py_str e (JInt i) = show_int i"
| "py_str e (JFloat r) = r"
| "py_str e (JStr s) = s"
| "py_str e (JList xs) = container_repr e (JList xs)"
| "py_str e (JObj kvs) = container_repr e (JObj kvs)"

fun truthy :: "json \<Rightarrow> bool" where
  "truthy JNull = False"
| "truthy (JBool b) = b"
| "truthy (JInt i) = (i \<noteq> 0)"
| "truthy (JFloat r) = (r \<noteq> ''0.0'' \<and> r \<noteq> ''-0.0'')"
| "truthy (JStr s) = (s \<noteq> [])"
| "truthy (JList xs) = (xs \<noteq> [])"
| "truthy (JObj kvs) = (kvs \<noteq> [])"

text \<open>\<open>d.get(k, default)\<close> and \<open>d.get(k)\<close>.\<close>

definition dict_get :: "(string \<times> json) list \<Rightarrow> string \<Rightarrow> json \<Rightarrow> json" where
  "dict_get kvs k d = (case map_of kvs k of None \<Rightarrow> d | Some v \<Rightarrow> v)"

definition dict_get_none :: "(string \<times> json) list \<Rightarrow> string \<Rightarrow> json" where
  "dict_get_none kvs k = dict_get kvs k JNull"

section \<open>The plan state\<close>

record item =
  i_id :: nat
  i_description :: string
  i_status :: string

record progress_entry =
  p_timestamp :: string
  p_message :: string
  p_percent :: "pyint option"

record reflection =
  r_timestamp :: string
  r_summary :: string
  r_risks :: "string list"
  r_next_actions :: "string list"

record plan_state =
  task :: string
  status :: string
  created_at :: string
  updated_at :: string
  percent_complete :: "pyint option"
  steps :: "item list"
  subgoals :: "item list"
  progress_log :: "progress_entry list"
  reflections :: "reflection list"

definition VALID_STATUSES :: "string set" where
  "VALID_STATUSES = {''pending'', ''in_progress'', ''completed'', ''blocked''}"

section \<open>Normalising text items\<close>

text \<open>The loop of \<open>_normalize_text_items\<close>, with its \<open>result\<close> and \<open>seen\<close>.\<close>

fun normalize_loop :: "string list \<Rightarrow> string list \<Rightarrow> string set \<Rightarrow> string list" where
  "normalize_loop [] result seen = result"
| "normalize_loop (raw # rest) result seen =
     (let text = strip raw in
      if text = [] \<or> text \<in> seen then normalize_loop rest result seen
      else normalize_loop rest (result @ [text]) (insert text seen))"

text \<open>Called with a list of strings or \<open>None\<close> (the operations' arguments).\<close>

definition normalize_text_items :: "string list option \<Rightarrow> string list" where
  "normalize_text_items values =
     (case values of None \<Rightarrow> [] | Some xs \<Rightarrow> if xs = [] then [] else normalize_loop xs [] {})"

text \<open>
  Called with a decoded JSON value (the coercer): a false value gives \<open>[]\<close>; a list, a
  string (its characters) and a dict (its keys) are iterated; iterating a true number
  or bool raises \<open>TypeError\<close>.
\<close>

fun normalize_text_items_json :: "env \<Rightarrow> json \<Rightarrow> failure + string list" where
  "normalize_text_items_json e (JList xs) =
     Inr (if xs = [] then [] else normalize_loop (map (py_str e) xs) [] {})"
| "normalize_text_items_json e (JStr s) =
     Inr (if s = [] then [] else normalize_loop (map (\<lambda>c. [c]) s) [] {})"
| "normalize_text_items_json e (JObj kvs) =
     Inr (if kvs = [] then [] else normalize_loop (map fst kvs) [] {})"
| "normalize_text_items_json e v = (if truthy v then Inl TypeError else Inr [])"

definition build_plan_items :: "string list \<Rightarrow> string \<Rightarrow> item list" where
  "build_plan_items items default_status =
     map (\<lambda>(idx, text). \<lparr>i_id = idx, i_description = text, i_status = default_status\<rparr>)
       (enumerate 1 items)"

section \<open>The state coercer\<close>

fun coerce_item_loop :: "env \<Rightarrow> json list \<Rightarrow> (string \<times> string) list" where
  "coerce_item_loop e [] = []"
| "coerce_item_loop e (raw # rest) =
     (let (description, st) =
        (case raw of
           JObj kvs \<Rightarrow>
             (strip (py_str e (dict_get kvs ''description'' (JStr ''''))),
              strip (py_str e (dict_get kvs ''status'' (JStr ''pending''))))
         | _ \<Rightarrow> (strip (py_str e raw), ''pending''))
      in if description = [] then coerce_item_loop e rest
         else (description, if st \<notin> VALID_STATUSES then ''pending'' else st)
                # coerce_item_loop e rest)"

definition coerce_item_list :: "env \<Rightarrow> json \<Rightarrow> item list" where
  "coerce_item_list e raw_items =
     (case raw_items of
        JList xs \<Rightarrow>
          map (\<lambda>(idx, (d, st)). \<lparr>i_id = idx, i_description = d, i_status = st\<rparr>)
            (enumerate 1 (coerce_item_loop e xs))
      | _ \<Rightarrow> [])"

text \<open>\<open>x if isinstance(x, int) else None\<close>.\<close>

fun as_pyint :: "json \<Rightarrow> pyint option" where
  "as_pyint (JInt i) = Some (PInt i)"
| "as_pyint (JBool b) = Some (PBool b)"
| "as_pyint _ = None"

text \<open>
  \<open>str(d.get(k, "")).strip() or _now_utc_iso()\<close>: the clock is read only when the text is
  blank; the second component is the number of clock readings so far.
\<close>

definition text_or_now :: "env \<Rightarrow> nat \<Rightarrow> string \<Rightarrow> string \<times> nat" where
  "text_or_now e t s = (if s = [] then (clock e t, Suc t) else (s, t))"

fun coerce_progress_loop :: "env \<Rightarrow> nat \<Rightarrow> json list \<Rightarrow> progress_entry list \<times> nat" where
  "coerce_progress_loop e t [] = ([], t)"
| "coerce_progress_loop e t (entry # rest) =
     (case entry of
        JObj kvs \<Rightarrow>
          (let message = strip (py_str e (dict_get kvs ''message'' (JStr '''')));
               (ts, t1) = text_or_now e t (strip (py_str e (dict_get kvs ''timestamp'' (JStr ''''))));
               percent = dict_get_none kvs ''percent_complete''
           in if message = [] then coerce_progress_loop e t1 rest
              else (let (others, t2) = coerce_progress_loop e t1 rest
                    in (\<lparr>p_timestamp = ts, p_message = message, p_percent = as_pyint percent\<rparr> # others, t2)))
      | _ \<Rightarrow> coerce_progress_loop e t rest)"

definition coerce_progress :: "env \<Rightarrow> nat \<Rightarrow> json \<Rightarrow> progress_entry list \<times> nat" where
  "coerce_progress e t raw_progress =
     (case raw_progress of JList xs \<Rightarrow> coerce_progress_loop e t xs | _ \<Rightarrow> ([], t))"

fun coerce_reflections_loop ::
  "env \<Rightarrow> nat \<Rightarrow> json list \<Rightarrow> failure + (reflection list \<times> nat)" where
  "coerce_reflections_loop e t [] = Inr ([], t)"
| "coerce_reflections_loop e t (entry # rest) =
     (case entry of
        JObj kvs \<Rightarrow>
          (let summary = strip (py_str e (dict_get kvs ''summary'' (JStr '''')));
               (ts, t1) = text_or_now e t (strip (py_str e (dict_get kvs ''timestamp'' (JStr ''''))))
           in if summary = [] then coerce_reflections_loop e t1 rest
              else (case normalize_text_items_json e (dict_get_none kvs ''risks'') of
                      Inl err \<Rightarrow> Inl err
                    | Inr risks \<Rightarrow>
                       (case normalize_text_items_json e (dict_get_none kvs ''next_actions'') of
                          Inl err \<Rightarrow> Inl err
                        | Inr next_actions \<Rightarrow>
                           (case coerce_reflections_loop e t1 rest of
                              Inl err \<Rightarrow> Inl err
                            | Inr (others, t2) \<Rightarrow>
                                Inr (\<lparr>r_timestamp = ts, r_summary = summary, r_risks = risks,
                                      r_next_actions = next_actions\<rparr> # others, t2)))))
      | _ \<Rightarrow> coerce_reflections_loop e t rest)"

definition coerce_reflections ::
  "env \<Rightarrow> nat \<Rightarrow> json \<Rightarrow> failure + (reflection list \<times> nat)" where
  "coerce_reflections e t raw_reflections =
     (case raw_reflections of JList xs \<Rightarrow> coerce_reflections_loop e t xs | _ \<Rightarrow> Inr ([], t))"

definition coerce_percent :: "json \<Rightarrow> pyint option" where
  "coerce_percent v =
     (case as_pyint v of
        None \<Rightarrow> None
      | Some p \<Rightarrow> if int_of p < 0 \<or> int_of p > 100 then None else Some p)"

text \<open>\<open>_coerce_state\<close> on the items of the decoded dict, from clock reading \<open>t\<close> on.\<close>

definition coerce_state ::
  "env \<Rightarrow> nat \<Rightarrow> (string \<times> json) list \<Rightarrow> failure + (plan_state \<times> nat)" where
  "coerce_state e t raw_state =
     (let (created, t1) = text_or_now e t (strip (py_str e (dict_get raw_state ''created_at'' (JStr ''''))));
          updated0 = strip (py_str e (dict_get raw_state ''updated_at'' (JStr '''')));
          updated = (if updated0 = [] then created else updated0);
          st0 = strip (py_str e (dict_get raw_state ''status'' (JStr ''active'')));
          st1 = (if st0 = [] then ''active'' else st0);
          st = (if st1 \<notin> {''active'', ''completed''} then ''active'' else st1);
          percent = coerce_percent (dict_get_none raw_state ''percent_complete'');
          tk = strip (py_str e (dict_get raw_state ''task'' (JStr '''')));
          stps = coerce_item_list e (dict_get_none raw_state ''steps'');
          subs = coerce_item_list e (dict_get_none raw_state ''subgoals'');
          (progress, t2) = coerce_progress e t1 (dict_get_none raw_state ''progress_log'')
      in case coerce_reflections e t2 (dict_get_none raw_state ''reflections'') of
           Inl err \<Rightarrow> Inl err
         | Inr (rs, t3) \<Rightarrow>
             Inr (\<lparr>task = tk, status = st, created_at = created, updated_at = updated,
                   percent_complete = percent, steps = stps, subgoals = subs,
                   progress_log = progress, reflections = rs\<rparr>, t3))"

section \<open>The completion percentage\<close>

text \<open>
  \<open>int(round((completed / len(steps)) * 100))\<close> is computed on binary64 floats: the
  quotient of the two integers is rounded to the nearest float, so is its product with
  \<open>100.0\<close>, and \<open>round\<close> takes the float to the nearest integer. Both roundings send
  ties to the even neighbour. The floats met here are positive and in the normal range
  (for fewer than \<open>2 ^ 1022\<close> steps), so \<open>fl64 x\<close>, the nearest multiple of
  \<open>2 ^ (e - 52)\<close> where \<open>2 ^ e \<le> x < 2 ^ (e + 1)\<close>, is the float nearest to \<open>x\<close>.
\<close>

definition pow2 :: "int \<Rightarrow> rat" where
  "pow2 e = (if 0 \<le> e then 2 ^ nat e else 1 / 2 ^ nat (- e))"

definition round_half_even :: "rat \<Rightarrow> int" where
  "round_half_even x =
     (let f = \<lfloor>x\<rfloor>; d = x - of_int f
      in if d < 1 / 2 then f else if 1 / 2 < d then f + 1 else if even f then f else f + 1)"

definition binade :: "rat \<Rightarrow> int" where
  "binade x =
     (let (a, b) = quotient_of x; d = bitlen a - bitlen b
      in if pow2 d \<le> x then d else d - 1)"

definition fl64 :: "rat \<Rightarrow> rat" where
  "fl64 x =
     (if x \<le> 0 then 0
      else (let u = pow2 (binade x - 52) in of_int (round_half_even (x / u)) * u))"

definition percent_of :: "nat \<Rightarrow> nat \<Rightarrow> int" where
  "percent_of completed n_total =
     round_half_even (fl64 (fl64 (of_nat completed / of_nat n_total) * 100))"

definition recompute_percent_from_steps :: "plan_state \<Rightarrow> plan_state" where
  "recompute_percent_from_steps s =
     (if steps s = [] then s\<lparr>percent_complete := Some (PInt 0)\<rparr>
      else (let completed = length (filter (\<lambda>it. i_status it = ''completed'') (steps s))
            in s\<lparr>percent_complete := Some (PInt (percent_of completed (length (steps s))))\<rparr>))"

definition mark_all_completed :: "item list \<Rightarrow> item list" where
  "mark_all_completed items = map (\<lambda>it. it\<lparr>i_status := ''completed''\<rparr>) items"

section \<open>Decomposing a task\<close>

text \<open>\<open>str.split()\<close>: the maximal runs of non-whitespace.\<close>

fun split_ws :: "string \<Rightarrow> string \<Rightarrow> string list" where
  "split_ws cur [] = (if cur = [] then [] else [cur])"
| "split_ws cur (c # cs) =
     (if py_isspace c then (if cur = [] then split_ws [] cs else cur # split_ws [] cs)
      else split_ws (cur @ [c]) cs)"

text \<open>
  \<open>re.split\<close> on a pattern \<open>[...]+\<close>: the pieces between the maximal runs of separator
  characters, with an empty piece where the text starts or ends with a run.
\<close>

fun split_runs :: "(char \<Rightarrow> bool) \<Rightarrow> string \<Rightarrow> bool \<Rightarrow> string \<Rightarrow> string list" where
  "split_runs sep cur in_run [] = [cur]"
| "split_runs sep cur in_run (c # cs) =
     (if sep c then (if in_run then split_runs sep [] True cs else cur # split_runs sep [] True cs)
      else split_runs sep (cur @ [c]) False cs)"

text \<open>\<open>str.split(",")\<close>.\<close>

fun split_char :: "char \<Rightarrow> string \<Rightarrow> string \<Rightarrow> string list" where
  "split_char d cur [] = [cur]"
| "split_char d cur (c # cs) =
     (if c = d then cur # split_char d [] cs else split_char d (cur @ [c]) cs)"

text \<open>
  The pattern \<open>\b(?:then|after that|next)\b\<close> with \<open>re.I\<close>. \<open>\w\<close> is \<open>str.isalnum\<close> or
  the underscore; a letter of the pattern matches itself and its capital.
\<close>

definition is_word_char :: "char \<Rightarrow> bool" where
  "is_word_char c =
     (let n = (of_char c :: nat)
      in (48 \<le> n \<and> n \<le> 57) \<or> (65 \<le> n \<and> n \<le> 90) \<or> n = 95 \<or> (97 \<le> n \<and> n \<le> 122)
         \<or> n \<in> set [170, 178, 179, 181, 185, 186, 188, 189, 190]
         \<or> (192 \<le> n \<and> n \<le> 214) \<or> (216 \<le> n \<and> n \<le> 246) \<or> 248 \<le> n)"

definition word_boundary :: "char option \<Rightarrow> char option \<Rightarrow> bool" where
  "word_boundary p n =
     ((case p of None \<Rightarrow> False | Some c \<Rightarrow> is_word_char c)
      \<noteq> (case n of None \<Rightarrow> False | Some c \<Rightarrow> is_word_char c))"

definition lower_ascii :: "char \<Rightarrow> char" where
  "lower_ascii c =
     (let n = (of_char c :: nat) in if 65 \<le> n \<and> n \<le> 90 then char_of (n + 32) else c)"

definition match_ci :: "string \<Rightarrow> string \<Rightarrow> bool" where
  "match_ci pat s = (length pat \<le> length s \<and> map lower_ascii (take (length pat) s) = pat)"

definition head_opt :: "string \<Rightarrow> char option" where
  "head_opt s = (case s of [] \<Rightarrow> None | c # _ \<Rightarrow> Some c)"

text \<open>
  The length of the connective matched at the start of \<open>s\<close>, where \<open>p\<close> is the character
  before it; the alternatives are tried in the pattern's order.
\<close>

definition connective_at :: "char option \<Rightarrow> string \<Rightarrow> nat option" where
  "connective_at p s =
     (if \<not> word_boundary p (head_opt s) then None
      else (case filter (\<lambda>alt. match_ci alt s
                          \<and> word_boundary (Some (s ! (length alt - 1))) (head_opt (drop (length alt) s)))
                  [''then'', ''after that'', ''next''] of
              [] \<Rightarrow> None
            | alt # _ \<Rightarrow> Some (length alt)))"

fun split_connectives :: "char option \<Rightarrow> string \<Rightarrow> string \<Rightarrow> string list" where
  "split_connectives p cur [] = [cur]"
| "split_connectives p cur (c # cs) =
     (case connective_at p (c # cs) of
        Some n \<Rightarrow> cur # split_connectives (Some ((c # cs) ! (n - 1))) [] (drop (n - 1) cs)
      | None \<Rightarrow> split_connectives (Some c) (cur @ [c]) cs)"

definition is_sentence_sep :: "char \<Rightarrow> bool" where
  "is_sentence_sep c = (c = CHR '';'' \<or> c = CHR 0x0A \<or> c = CHR ''.'')"

definition is_punct :: "char \<Rightarrow> bool" where
  "is_punct c = (c = CHR '' '' \<or> c = CHR '','' \<or> c = CHR '':'' \<or> c = CHR ''-'')"

definition cleaned_parts :: "string list \<Rightarrow> string list" where
  "cleaned_parts parts = filter (\<lambda>x. x \<noteq> []) (map (strip_chars is_punct) parts)"

definition fallback_steps :: "string \<Rightarrow> string list" where
  "fallback_steps normalized =
     [''Clarify acceptance criteria for: '' @ normalized,
      ''Inspect the relevant code and dependencies'',
      ''Implement the required code changes'',
      ''Validate behavior with tests and checks'',
      ''Summarize results and remaining follow-ups'']"

text \<open>The \<open>unique_candidates\<close> that \<open>decompose_task\<close> computes from the normalized task.\<close>

definition unique_candidates :: "string \<Rightarrow> string list" where
  "unique_candidates normalized =
     (let candidates = concat (map (\<lambda>sentence. cleaned_parts (split_connectives None [] sentence))
                                 (split_runs is_sentence_sep [] False normalized));
          candidates2 = (if length candidates < 2 \<and> CHR '','' \<in> set normalized
                         then candidates @ cleaned_parts (split_char (CHR '','') [] normalized)
                         else candidates)
      in normalize_text_items (Some candidates2))"

definition normalized_task :: "string \<Rightarrow> string" where
  "normalized_task tsk = strip (join '' '' (split_ws [] tsk))"

definition decompose_task :: "string \<Rightarrow> int \<Rightarrow> string list" where
  "decompose_task tsk max_steps =
     (if max_steps \<le> 0 then [''Error: max_steps must be > 0'']
      else (let normalized = normalized_task tsk in
        if normalized = [] then [''Error: task must not be empty'']
        else if 2 \<le> length (unique_candidates normalized)
          then take (nat max_steps) (unique_candidates normalized)
          else take (nat max_steps) (fallback_steps normalized)))"

section \<open>The document: serialisation\<close>

definition nl :: string where
  "nl = [CHR 0x0A]"

definition format_item :: "item \<Rightarrow> string" where
  "format_item it =
     show_nat (i_id it) @ ''. ['' @ (if i_status it = ''completed'' then ''x'' else '' '')
       @ ''] ('' @ i_status it @ '') '' @ i_description it"

definition format_items :: "item list \<Rightarrow> string" where
  "format_items items = (if items = [] then ''- (none)'' else join nl (map format_item items))"

definition format_progress_entry :: "progress_entry \<Rightarrow> string" where
  "format_progress_entry en =
     ''- '' @ p_timestamp en @ '' | ''
       @ (case p_percent en of Some p \<Rightarrow> show_pyint p @ ''%'' | None \<Rightarrow> ''-'')
       @ '' | '' @ p_message en"

definition format_progress :: "progress_entry list \<Rightarrow> string" where
  "format_progress entries =
     (if entries = [] then ''- (none)'' else join nl (map format_progress_entry entries))"

definition reflection_lines :: "nat \<times> reflection \<Rightarrow> string list" where
  "reflection_lines ir =
     (case ir of (idx, r) \<Rightarrow>
        [''### Reflection '' @ show_nat idx @ '' ('' @ r_timestamp r @ '')'', r_summary r]
        @ (if r_risks r \<noteq> [] then ''Risks:'' # map (\<lambda>x. ''- '' @ x) (r_risks r) else [])
        @ (if r_next_actions r \<noteq> []
           then ''Next Actions:'' # map (\<lambda>x. ''- '' @ x) (r_next_actions r) else []))"

definition format_reflections :: "reflection list \<Rightarrow> string" where
  "format_reflections rs =
     (if rs = [] then ''- (none)''
      else join nl (concat (map reflection_lines (enumerate 1 rs))))"

text \<open>The state as the \<open>dict\<close> handed to \<open>json.dumps\<close>, keys in insertion order.\<close>

definition json_of_percent :: "pyint option \<Rightarrow> json" where
  "json_of_percent p =
     (case p of None \<Rightarrow> JNull | Some (PInt i) \<Rightarrow> JInt i | Some (PBool b) \<Rightarrow> JBool b)"

definition json_of_item :: "item \<Rightarrow> json" where
  "json_of_item it =
     JObj [(''id'', JInt (int (i_id it))), (''description'', JStr (i_description it)),
           (''status'', JStr (i_status it))]"

definition json_of_progress :: "progress_entry \<Rightarrow> json" where
  "json_of_progress en =
     JObj [(''timestamp'', JStr (p_timestamp en)), (''message'', JStr (p_message en)),
           (''percent_complete'', json_of_percent (p_percent en))]"

definition json_of_reflection :: "reflection \<Rightarrow> json" where
  "json_of_reflection r =
     JObj [(''timestamp'', JStr (r_timestamp r)), (''summary'', JStr (r_summary r)),
           (''risks'', JList (map JStr (r_risks r))),
           (''next_actions'', JList (map JStr (r_next_actions r)))]"

definition json_of_state :: "plan_state \<Rightarrow> (string \<times> json) list" where
  "json_of_state s =
     [(''task'', JStr (task s)), (''status'', JStr (status s)),
      (''created_at'', JStr (created_at s)), (''updated_at'', JStr (updated_at s)),
      (''percent_complete'', json_of_percent (percent_complete s)),
      (''steps'', JList (map json_of_item (steps s))),
      (''subgoals'', JList (map json_of_item (subgoals s))),
      (''progress_log'', JList (map json_of_progress (progress_log s))),
      (''reflections'', JList (map json_of_reflection (reflections s)))]"

text \<open>
  \<open>json.dumps(value, indent=2, sort_keys=True)\<close>, with the default \<open>ensure_ascii\<close>: every
  character outside \<open>' '..'~'\<close>, the quote and the backslash are escaped.
\<close>

definition hex_digit :: "nat \<Rightarrow> char" where
  "hex_digit d = (if d < 10 then char_of (48 + d) else char_of (87 + d))"

definition encode_char :: "char \<Rightarrow> string" where
  "encode_char c =
     (let n = (of_char c :: nat) in
      if c = CHR 0x22 then [CHR 0x5C, CHR 0x22]
      else if c = CHR 0x5C then [CHR 0x5C, CHR 0x5C]
      else if c = CHR 0x0A then [CHR 0x5C, CHR ''n'']
      else if c = CHR 0x0D then [CHR 0x5C, CHR ''r'']
      else if c = CHR 0x09 then [CHR 0x5C, CHR ''t'']
      else if c = CHR 0x08 then [CHR 0x5C, CHR ''b'']
      else if c = CHR 0x0C then [CHR 0x5C, CHR ''f'']
      else if n < 32 \<or> 126 < n
        then [CHR 0x5C, CHR ''u'', CHR ''0'', CHR ''0'', hex_digit (n div 16), hex_digit (n mod 16)]
      else [c])"

definition encode_string :: "string \<Rightarrow> string" where
  "encode_string s = CHR 0x22 # concat (map encode_char s) @ [CHR 0x22]"

definition newline_indent :: "nat \<Rightarrow> string" where
  "newline_indent level = CHR 0x0A # replicate (2 * level) (CHR '' '')"

text \<open>
  The members of an object are rendered and then ordered by key, which gives the text of
  ordering them first as \<open>sort_keys\<close> does: how a member is rendered does not depend on its
  place.
\<close>

fun dumps_at :: "nat \<Rightarrow> json \<Rightarrow> string"
  and dumps_elements :: "nat \<Rightarrow> json list \<Rightarrow> string list"
  and dumps_members :: "nat \<Rightarrow> (string \<times> json) list \<Rightarrow> (string \<times> string) list" where
  "dumps_at level JNull = ''null''"
| "dumps_at level (JBool b) = (if b then ''true'' else ''false'')"
| "dumps_at level (JInt i) = show_int i"
| "dumps_at level (JFloat r) = r"
| "dumps_at level (JStr s) = encode_string s"
| "dumps_at level (JList xs) =
     (if xs = [] then ''[]''
      else ''['' @ newline_indent (Suc level)
           @ join ('','' @ newline_indent (Suc level)) (dumps_elements (Suc level) xs)
           @ newline_indent level @ '']'')"
| "dumps_at level (JObj kvs) =
     (if kvs = [] then ''{}''
      else ''{'' @ newline_indent (Suc level)
           @ join ('','' @ newline_indent (Suc level))
               (map (\<lambda>(k, text). encode_string k @ '': '' @ text)
                  (sort_key fst (dumps_members (Suc level) kvs)))
           @ newline_indent level @ ''}'')"
| "dumps_elements level [] = []"
| "dumps_elements level (x # xs) = dumps_at level x # dumps_elements level xs"
| "dumps_members level [] = []"
| "dumps_members level ((k, v) # kvs) = (k, dumps_at level v) # dumps_members level kvs"

definition dumps :: "json \<Rightarrow> string" where
  "dumps v = dumps_at 0 v"

definition STATE_START :: string where
  "STATE_START = ''<!-- PLAN_STATE_JSON_START -->''"

definition STATE_END :: string where
  "STATE_END = ''<!-- PLAN_STATE_JSON_END -->''"

definition percent_label :: "pyint option \<Rightarrow> string" where
  "percent_label p = (case p of Some x \<Rightarrow> show_pyint x @ ''%'' | None \<Rightarrow> ''n/a'')"

text \<open>The lines of the document before the embedded block, and the whole document.\<close>

definition prose_lines :: "plan_state \<Rightarrow> string list" where
  "prose_lines s =
     [''# Agent Plan'',
      [],
      ''## Summary'',
      ''- Task: '' @ task s,
      ''- Status: '' @ status s,
      ''- Progress: '' @ percent_label (percent_complete s),
      ''- Created (UTC): '' @ created_at s,
      ''- Updated (UTC): '' @ updated_at s,
      [],
      ''## Steps'',
      format_items (steps s),
      [],
      ''## Subgoals'',
      format_items (subgoals s),
      [],
      ''## Progress Log'',
      format_progress (progress_log s),
      [],
      ''## Reflections'',
      format_reflections (reflections s),
      [],
      ''---'']"

definition serialize_markdown :: "plan_state \<Rightarrow> string" where
  "serialize_markdown s =
     join nl (prose_lines s
              @ [STATE_START, ''```json'', dumps (JObj (json_of_state s)), ''```'', STATE_END, []])"

section \<open>The document: parsing\<close>

text \<open>
  \<open>json.loads\<close>, as the scanner of the \<open>json\<close> module works: whitespace is space, tab,
  newline and carriage return; a string ends at the first unescaped quote and holds no
  control character; a number with a fraction or an exponent is a float, whose \<open>repr\<close>
  is \<open>float_repr\<close> of the literal. An escape \<open>\uXXXX\<close> of a code point above 255 is
  outside this model and reported as \<open>Beyond_Latin1\<close>. The scanner recurses on nested
  values; the model counts the calls down from twice the length of the text, which
  they never exhaust (lemma \<open>loads_fuel\<close>).
\<close>

definition json_ws :: "char \<Rightarrow> bool" where
  "json_ws c = (c = CHR '' '' \<or> c = CHR 0x09 \<or> c = CHR 0x0A \<or> c = CHR 0x0D)"

definition skip_ws :: "string \<Rightarrow> string" where
  "skip_ws s = dropWhile json_ws s"

definition is_digit :: "char \<Rightarrow> bool" where
  "is_digit c = (48 \<le> (of_char c :: nat) \<and> (of_char c :: nat) \<le> 57)"

definition digits_value :: "string \<Rightarrow> nat" where
  "digits_value ds = foldl (\<lambda>a c. 10 * a + (of_char c - 48)) 0 ds"

definition hex_value :: "char \<Rightarrow> nat option" where
  "hex_value c =
     (let n = (of_char c :: nat) in
      if 48 \<le> n \<and> n \<le> 57 then Some (n - 48)
      else if 97 \<le> n \<and> n \<le> 102 then Some (n - 87)
      else if 65 \<le> n \<and> n \<le> 70 then Some (n - 55)
      else None)"

definition unescape :: "char \<Rightarrow> char option" where
  "unescape c =
     (if c = CHR 0x22 then Some (CHR 0x22)
      else if c = CHR 0x5C then Some (CHR 0x5C)
      else if c = CHR ''/'' then Some (CHR ''/'')
      else if c = CHR ''b'' then Some (CHR 0x08)
      else if c = CHR ''f'' then Some (CHR 0x0C)
      else if c = CHR ''n'' then Some (CHR 0x0A)
      else if c = CHR ''r'' then Some (CHR 0x0D)
      else if c = CHR ''t'' then Some (CHR 0x09)
      else None)"

text \<open>The text after an opening quote: the decoded string and what follows its closing quote.\<close>

fun scan_string :: "string \<Rightarrow> string \<Rightarrow> failure + (string \<times> string)" where
  "scan_string acc [] = Inl JSONDecodeError"
| "scan_string acc (c # cs) =
     (if c = CHR 0x22 then Inr (acc, cs)
      else if c = CHR 0x5C then
        (case cs of
           [] \<Rightarrow> Inl JSONDecodeError
         | x # r \<Rightarrow>
             if x = CHR ''u'' then
               (case r of
                  h1 # h2 # h3 # h4 # r' \<Rightarrow>
                    (case (hex_value h1, hex_value h2, hex_value h3, hex_value h4) of
                       (Some a, Some b, Some c', Some d) \<Rightarrow>
                         if a = 0 \<and> b = 0 then scan_string (acc @ [char_of (16 * c' + d)]) r'
                         else Inl Beyond_Latin1
                     | _ \<Rightarrow> Inl JSONDecodeError)
                | _ \<Rightarrow> Inl JSONDecodeError)
             else (case unescape x of
                     None \<Rightarrow> Inl JSONDecodeError
                   | Some ch \<Rightarrow> scan_string (acc @ [ch]) r))
      else if (of_char c :: nat) < 32 then Inl JSONDecodeError
      else scan_string (acc @ [c]) cs)"

definition scan_number :: "env \<Rightarrow> string \<Rightarrow> (json \<times> string) option" where
  "scan_number e s =
     (let (neg, s1) = (case s of [] \<Rightarrow> (False, s)
                       | c # r \<Rightarrow> if c = CHR ''-'' then (True, r) else (False, s));
          ip = (case s1 of [] \<Rightarrow> []
                | c # r \<Rightarrow> if c = CHR ''0'' then ''0''
                           else if is_digit c then takeWhile is_digit s1 else [])
      in if ip = [] then None
         else (let
            s2 = drop (length ip) s1;
            fp = (case s2 of
                    c # d # r \<Rightarrow> if c = CHR ''.'' \<and> is_digit d then c # takeWhile is_digit (d # r) else []
                  | _ \<Rightarrow> []);
            s3 = drop (length fp) s2;
            ep = (case s3 of
                    [] \<Rightarrow> []
                  | c # r \<Rightarrow>
                      if c = CHR ''e'' \<or> c = CHR ''E'' then
                        (let sgn = (case r of [] \<Rightarrow> []
                                    | x # _ \<Rightarrow> if x = CHR ''+'' \<or> x = CHR ''-'' then [x] else []);
                             ds = takeWhile is_digit (drop (length sgn) r)
                         in if ds = [] then [] else c # sgn @ ds)
                      else []);
            s4 = drop (length ep) s3
          in if fp = [] \<and> ep = []
             then Some (JInt (if neg then - int (digits_value ip) else int (digits_value ip)), s2)
             else Some (JFloat (float_repr e (take (length s - length s4) s)), s4)))"

text \<open>Building the \<open>dict\<close>: a repeated key keeps its place and takes the later value.\<close>

fun dict_set :: "(string \<times> json) list \<Rightarrow> string \<Rightarrow> json \<Rightarrow> (string \<times> json) list" where
  "dict_set [] k v = [(k, v)]"
| "dict_set ((k', v') # kvs) k v = (if k' = k then (k, v) # kvs else (k', v') # dict_set kvs k v)"

fun parse_value :: "env \<Rightarrow> nat \<Rightarrow> string \<Rightarrow> failure + (json \<times> string)"
  and parse_elements :: "env \<Rightarrow> nat \<Rightarrow> json list \<Rightarrow> string \<Rightarrow> failure + (json list \<times> string)"
  and parse_members ::
    "env \<Rightarrow> nat \<Rightarrow> (string \<times> json) list \<Rightarrow> string \<Rightarrow> failure + ((string \<times> json) list \<times> string)"
  where
  "parse_value e 0 s = Inl Out_Of_Fuel"
| "parse_value e (Suc f) s =
     (case s of
        [] \<Rightarrow> Inl JSONDecodeError
      | c # r \<Rightarrow>
          if c = CHR 0x22 then
            (case scan_string [] r of Inl err \<Rightarrow> Inl err | Inr (str, r') \<Rightarrow> Inr (JStr str, r'))
          else if c = CHR ''{'' then
            (case skip_ws r of
               [] \<Rightarrow> Inl JSONDecodeError
             | d # r1 \<Rightarrow>
                 if d = CHR ''}'' then Inr (JObj [], r1)
                 else (case parse_members e f [] (d # r1) of
                         Inl err \<Rightarrow> Inl err
                       | Inr (kvs, r2) \<Rightarrow> Inr (JObj kvs, r2)))
          else if c = CHR ''['' then
            (case skip_ws r of
               [] \<Rightarrow> Inl JSONDecodeError
             | d # r1 \<Rightarrow>
                 if d = CHR '']'' then Inr (JList [], r1)
                 else (case parse_elements e f [] (d # r1) of
                         Inl err \<Rightarrow> Inl err
                       | Inr (xs, r2) \<Rightarrow> Inr (JList xs, r2)))
          else if startswith s ''null'' then Inr (JNull, drop 4 s)
          else if startswith s ''true'' then Inr (JBool True, drop 4 s)
          else if startswith s ''false'' then Inr (JBool False, drop 5 s)
          else if startswith s ''NaN'' then Inr (JFloat ''nan'', drop 3 s)
          else if startswith s ''Infinity'' then Inr (JFloat ''inf'', drop 8 s)
          else if startswith s ''-Infinity'' then Inr (JFloat ''-inf'', drop 9 s)
          else (case scan_number e s of None \<Rightarrow> Inl JSONDecodeError | Some vr \<Rightarrow> Inr vr))"
| "parse_elements e 0 acc s = Inl Out_Of_Fuel"
| "parse_elements e (Suc f) acc s =
     (case parse_value e f s of
        Inl err \<Rightarrow> Inl err
      | Inr (v, r) \<Rightarrow>
          (case skip_ws r of
             [] \<Rightarrow> Inl JSONDecodeError
           | c # r1 \<Rightarrow>
               if c = CHR '']'' then Inr (acc @ [v], r1)
               else if c = CHR '','' then parse_elements e f (acc @ [v]) (skip_ws r1)
               else Inl JSONDecodeError))"
| "parse_members e 0 acc s = Inl Out_Of_Fuel"
| "parse_members e (Suc f) acc s =
     (case s of
        [] \<Rightarrow> Inl JSONDecodeError
      | q # r \<Rightarrow>
          if q \<noteq> CHR 0x22 then Inl JSONDecodeError
          else (case scan_string [] r of
                  Inl err \<Rightarrow> Inl err
                | Inr (key, r1) \<Rightarrow>
                    (case skip_ws r1 of
                       [] \<Rightarrow> Inl JSONDecodeError
                     | c2 # r2 \<Rightarrow>
                         if c2 \<noteq> CHR '':'' then Inl JSONDecodeError
                         else (case parse_value e f (skip_ws r2) of
                                 Inl err \<Rightarrow> Inl err
                               | Inr (v, r3) \<Rightarrow>
                                   (case skip_ws r3 of
                                      [] \<Rightarrow> Inl JSONDecodeError
                                    | c4 # r4 \<Rightarrow>
                                        if c4 = CHR ''}'' then Inr (dict_set acc key v, r4)
                                        else if c4 = CHR '',''
                                          then parse_members e f (dict_set acc key v) (skip_ws r4)
                                        else Inl JSONDecodeError)))))"

definition loads :: "env \<Rightarrow> string \<Rightarrow> failure + json" where
  "loads e s =
     (case parse_value e (2 * length s + 1) (skip_ws s) of
        Inl err \<Rightarrow> Inl err
      | Inr (v, r) \<Rightarrow> if skip_ws r = [] then Inr v else Inl JSONDecodeError)"

text \<open>
  \<open>STATE_PATTERN.search\<close>. The pattern is the start sentinel, \<open>\s*\<close>, the fence
  \<open>```json\<close>, \<open>\s*\<close>, the group \<open>\{.*\}\<close> where the dot matches newlines, \<open>\s*\<close>, the fence
  \<open>```\<close>, \<open>\s*\<close> and the end sentinel. Each literal after a \<open>\s*\<close> starts with a
  character that is not whitespace, so the \<open>\s*\<close> takes all the whitespace there is; the
  greedy \<open>.*\<close> ends the group at the last brace after which the rest of the pattern
  matches; \<open>search\<close> returns the match at the leftmost position that has one.
\<close>

definition after_ws_lit :: "string \<Rightarrow> string \<Rightarrow> string option" where
  "after_ws_lit lit s =
     (let s1 = dropWhile py_isspace s
      in if startswith s1 lit then Some (drop (length lit) s1) else None)"

definition tail_ok :: "string \<Rightarrow> bool" where
  "tail_ok s =
     (case after_ws_lit ''```'' s of
        None \<Rightarrow> False
      | Some r \<Rightarrow> after_ws_lit STATE_END r \<noteq> None)"

text \<open>
  In the text after the opening brace: the length up to and including the last closing
  brace that the tail of the pattern follows.
\<close>

fun last_close :: "string \<Rightarrow> nat \<Rightarrow> nat option \<Rightarrow> nat option" where
  "last_close [] i best = best"
| "last_close (c # cs) i best =
     last_close cs (Suc i) (if c = CHR ''}'' \<and> tail_ok cs then Some (Suc i) else best)"

definition match_here :: "string \<Rightarrow> string option" where
  "match_here s =
     (if \<not> startswith s STATE_START then None
      else (case after_ws_lit ''```json'' (drop (length STATE_START) s) of
              None \<Rightarrow> None
            | Some r1 \<Rightarrow>
                (case dropWhile py_isspace r1 of
                   [] \<Rightarrow> None
                 | c # b \<Rightarrow>
                     if c \<noteq> CHR ''{'' then None
                     else (case last_close b 0 None of
                             None \<Rightarrow> None
                           | Some n \<Rightarrow> Some (c # take n b)))))"

fun state_search :: "string \<Rightarrow> string option" where
  "state_search [] = None"
| "state_search (c # cs) =
     (case match_here (c # cs) of Some g \<Rightarrow> Some g | None \<Rightarrow> state_search cs)"

definition load_state_from_markdown ::
  "env \<Rightarrow> nat \<Rightarrow> string \<Rightarrow> failure + (plan_state \<times> nat)" where
  "load_state_from_markdown e t content =
     (case state_search content of
        None \<Rightarrow> Inl (ValueError ''Plan file is missing embedded JSON state markers'')
      | Some g \<Rightarrow>
          (case loads e g of
             Inl JSONDecodeError \<Rightarrow>
               Inl (ValueError (''Plan file contains invalid JSON state: '' @ decode_message e g))
           | Inl err \<Rightarrow> Inl err
           | Inr (JObj kvs) \<Rightarrow> coerce_state e t kvs
           | Inr _ \<Rightarrow> Inl (ValueError ''Plan state must be a JSON object'')))"

section \<open>The plan store\<close>

text \<open>
  The world a call runs in: what is at each resolved path (a file with its text, or a
  directory), how often the clock has been read, and the file-system accesses made so
  far. A call returns a message or ends in a failure, and leaves a world.
\<close>

datatype node = File string | Dir

datatype io_event =
    Ev_resolve string
  | Ev_stat string
  | Ev_read string
  | Ev_write string string
  | Ev_write_failed string
  | Ev_unlink string
  | Ev_unlink_failed string

record world =
  nodes :: "string \<Rightarrow> node option"
  ticks :: nat
  io_log :: "io_event list"

definition logged :: "io_event \<Rightarrow> world \<Rightarrow> world" where
  "logged ev w = w\<lparr>io_log := io_log w @ [ev]\<rparr>"

definition now_utc_iso :: "env \<Rightarrow> world \<Rightarrow> string \<times> world" where
  "now_utc_iso e w = (clock e (ticks w), w\<lparr>ticks := Suc (ticks w)\<rparr>)"

text \<open>A failed write is taken to leave the file as it was.\<close>

definition write_state :: "env \<Rightarrow> string \<Rightarrow> plan_state \<Rightarrow> world \<Rightarrow> string \<times> world" where
  "write_state e plan_path s w =
     (case (case write_error e plan_path of
              Some err \<Rightarrow> Some err
            | None \<Rightarrow> if nodes w plan_path = Some Dir
                       then Some (''[Errno 21] Is a directory: '' @ [CHR 0x27] @ as_posix e plan_path @ [CHR 0x27])
                       else None) of
        Some err \<Rightarrow>
          (''Error: Unable to write plan file '' @ [CHR 0x27] @ as_posix e plan_path @ [CHR 0x27]
             @ '': '' @ err,
           logged (Ev_write_failed plan_path) w)
      | None \<Rightarrow>
          (''Saved plan to '' @ plan_path,
           logged (Ev_write plan_path (serialize_markdown s))
             (w\<lparr>nodes := (nodes w)(plan_path \<mapsto> File (serialize_markdown s))\<rparr>)))"

definition read_existing_state ::
  "env \<Rightarrow> string \<Rightarrow> world \<Rightarrow> (failure + (string option \<times> plan_state option \<times> string)) \<times> world" where
  "read_existing_state e plan_file w =
     (let w0 = logged (Ev_resolve plan_file) w in
      case resolve e plan_file of
        Inl msg \<Rightarrow> (Inr (None, None, ''Error: '' @ msg), w0)
      | Inr plan_path \<Rightarrow>
          (let w1 = logged (Ev_stat plan_path) w0 in
           case nodes w plan_path of
             None \<Rightarrow>
               (Inr (Some plan_path, None,
                     ''Error: Plan file '' @ [CHR 0x27] @ plan_file @ [CHR 0x27] @ '' not found''), w1)
           | Some Dir \<Rightarrow>
               (Inr (Some plan_path, None,
                     ''Error: '' @ [CHR 0x27] @ plan_file @ [CHR 0x27] @ '' is not a file''),
                logged (Ev_stat plan_path) w1)
           | Some (File content) \<Rightarrow>
               (let w2 = logged (Ev_read plan_path) (logged (Ev_stat plan_path) w1) in
                case read_error e plan_path of
                  Some err \<Rightarrow>
                    (Inr (Some plan_path, None,
                          ''Error: Unable to read '' @ [CHR 0x27] @ plan_file @ [CHR 0x27] @ '': '' @ err),
                     w2)
                | None \<Rightarrow>
                    (case load_state_from_markdown e (ticks w) content of
                       Inl (ValueError msg) \<Rightarrow> (Inr (Some plan_path, None, ''Error: '' @ msg), w2)
                     | Inl err \<Rightarrow> (Inl err, w2)
                     | Inr (s, t) \<Rightarrow> (Inr (Some plan_path, Some s, []), w2\<lparr>ticks := t\<rparr>)))))"

definition maybe_cleanup_plan_file ::
  "env \<Rightarrow> string \<Rightarrow> bool \<Rightarrow> plan_state \<Rightarrow> world \<Rightarrow> string option \<times> world" where
  "maybe_cleanup_plan_file e plan_path cleanup_plan_file s w =
     (if \<not> cleanup_plan_file then (None, w)
      else if status s \<noteq> ''completed''
        then (Some ''Error: cleanup_plan_file requires a completed plan'', w)
      else (case unlink_error e plan_path of
              None \<Rightarrow>
                (Some (''Completed plan and removed '' @ plan_path),
                 logged (Ev_unlink plan_path) (w\<lparr>nodes := (nodes w)(plan_path := None)\<rparr>))
            | Some err \<Rightarrow>
                (Some (''Warning: Plan completed but cleanup failed for '' @ [CHR 0x27] @ plan_path
                       @ [CHR 0x27] @ '': '' @ err),
                 logged (Ev_unlink_failed plan_path) w)))"

section \<open>The operations\<close>

text \<open>
  Each operation is the source function; the part of it between loading and persisting,
  which computes the new state from the loaded one, is named \<open>..._state\<close>.
\<close>

definition create_state :: "string \<Rightarrow> string list \<Rightarrow> string \<Rightarrow> plan_state" where
  "create_state task_text normalized_steps created =
     \<lparr>task = task_text, status = ''active'', created_at = created, updated_at = created,
      percent_complete = Some (PInt 0),
      steps = (case build_plan_items normalized_steps ''pending'' of
                 [] \<Rightarrow> []
               | x # xs \<Rightarrow> x\<lparr>i_status := ''in_progress''\<rparr> # xs),
      subgoals = [],
      progress_log = [\<lparr>p_timestamp = created, p_message = ''Plan created'',
                       p_percent = Some (PInt 0)\<rparr>],
      reflections = []\<rparr>"

definition create_plan ::
  "env \<Rightarrow> string \<Rightarrow> string list option \<Rightarrow> string \<Rightarrow> bool \<Rightarrow> world \<Rightarrow> (failure + string) \<times> world" where
  "create_plan e tsk stps plan_file overwrite w =
     (let task_text = strip tsk in
      if task_text = [] then (Inr ''Error: task must not be empty'', w)
      else (let given = normalize_text_items stps;
                normalized_steps = (if given = [] then decompose_task task_text 6 else given)
        in if given = [] \<and> normalized_steps \<noteq> [] \<and> startswith (hd normalized_steps) ''Error:''
           then (Inr (hd normalized_steps), w)
           else (let w0 = logged (Ev_resolve plan_file) w in
             case resolve e plan_file of
               Inl msg \<Rightarrow> (Inr (''Error: '' @ msg), w0)
             | Inr plan_path \<Rightarrow>
                 (let w1 = logged (Ev_stat plan_path) w0 in
                  if nodes w plan_path \<noteq> None \<and> \<not> overwrite
                    then (Inr (''Error: Plan file '' @ [CHR 0x27] @ plan_file @ [CHR 0x27]
                               @ '' already exists and overwrite is False''), w1)
                  else if nodes w plan_path = Some Dir
                    then (Inr (''Error: '' @ [CHR 0x27] @ plan_file @ [CHR 0x27] @ '' is a directory''),
                          logged (Ev_stat plan_path) w1)
                  else (let (created, w2) = now_utc_iso e (logged (Ev_stat plan_path) w1);
                            s = create_state task_text normalized_steps created;
                            (write_result, w3) = write_state e plan_path s w2
                        in if startswith write_result ''Error:'' then (Inr write_result, w3)
                           else (Inr (''Created plan '' @ plan_path @ '' with ''
                                      @ show_nat (length (steps s)) @ '' step(s)''), w3))))))"

definition demote_others :: "int \<Rightarrow> item list \<Rightarrow> item list" where
  "demote_others step_number items =
     map (\<lambda>(idx, it). if int idx \<noteq> step_number \<and> i_status it = ''in_progress''
                       then it\<lparr>i_status := ''pending''\<rparr> else it)
       (enumerate 1 items)"

definition all_completed :: "item list \<Rightarrow> bool" where
  "all_completed items = list_all (\<lambda>it. i_status it = ''completed'') items"

definition update_plan_state ::
  "int \<Rightarrow> string \<Rightarrow> string \<Rightarrow> string \<Rightarrow> plan_state \<Rightarrow> plan_state" where
  "update_plan_state step_number st note timestamp s =
     (let steps1 = (if st = ''in_progress'' then demote_others step_number (steps s) else steps s);
          k = nat (step_number - 1);
          steps2 = steps1[k := (steps1 ! k)\<lparr>i_status := st\<rparr>];
          entries = (if strip note \<noteq> []
                     then progress_log s @ [\<lparr>p_timestamp = timestamp, p_message = strip note,
                                              p_percent = None\<rparr>]
                     else progress_log s);
          st' = (if steps2 \<noteq> [] \<and> all_completed steps2 then ''completed'' else ''active'')
      in recompute_percent_from_steps
           (s\<lparr>steps := steps2, progress_log := entries, status := st', updated_at := timestamp\<rparr>))"

definition update_plan ::
  "env \<Rightarrow> int \<Rightarrow> string \<Rightarrow> string \<Rightarrow> string \<Rightarrow> world \<Rightarrow> (failure + string) \<times> world" where
  "update_plan e step_number st note plan_file w =
     (if step_number < 1 then (Inr ''Error: step_number must be >= 1'', w)
      else if st \<notin> VALID_STATUSES
        then (Inr ''Error: status must be one of: pending, in_progress, completed, blocked'', w)
      else (case read_existing_state e plan_file w of
              (Inl err, w1) \<Rightarrow> (Inl err, w1)
            | (Inr (plan_path, state, error), w1) \<Rightarrow>
                if error \<noteq> [] then (Inr error, w1)
                else (case (state, plan_path) of
                        (Some s, Some path) \<Rightarrow>
                          if steps s = [] then (Inr ''Error: Plan has no steps to update'', w1)
                          else if step_number > int (length (steps s))
                            then (Inr (''Error: step_number '' @ show_int step_number
                                       @ '' is out of range (1..'' @ show_nat (length (steps s))
                                       @ '')''), w1)
                          else (let (timestamp, w2) = now_utc_iso e w1;
                                    s' = update_plan_state step_number st note timestamp s;
                                    (write_result, w3) = write_state e path s' w2
                                in if startswith write_result ''Error:'' then (Inr write_result, w3)
                                   else (Inr (''Updated step '' @ show_int step_number @ '' to ''
                                              @ [CHR 0x27] @ st @ [CHR 0x27] @ '' in '' @ path), w3))
                      | _ \<Rightarrow> (Inr ''Error: Unable to load plan state'', w1))))"

definition set_subgoals_state :: "string list \<Rightarrow> bool \<Rightarrow> string \<Rightarrow> plan_state \<Rightarrow> plan_state" where
  "set_subgoals_state normalized_subgoals replace timestamp s =
     (let current_subgoals = subgoals s;
          status_by_description =
            map_of (rev (map (\<lambda>it. (i_description it, i_status it)) current_subgoals));
          merged = (if replace then normalized_subgoals
                    else normalize_text_items
                           (Some (map i_description current_subgoals @ normalized_subgoals)));
          updated_subgoals =
            map (\<lambda>(idx, description).
                   (let existing = (case status_by_description description of
                                      None \<Rightarrow> ''pending'' | Some x \<Rightarrow> x)
                    in \<lparr>i_id = idx, i_description = description,
                        i_status = (if existing \<notin> VALID_STATUSES then ''pending'' else existing)\<rparr>))
              (enumerate 1 merged)
      in s\<lparr>subgoals := updated_subgoals, updated_at := timestamp\<rparr>)"

definition set_subgoals ::
  "env \<Rightarrow> string list \<Rightarrow> string \<Rightarrow> bool \<Rightarrow> world \<Rightarrow> (failure + string) \<times> world" where
  "set_subgoals e subs plan_file replace w =
     (let normalized_subgoals = normalize_text_items (Some subs) in
      if normalized_subgoals = []
        then (Inr ''Error: subgoals must include at least one non-empty item'', w)
      else (case read_existing_state e plan_file w of
              (Inl err, w1) \<Rightarrow> (Inl err, w1)
            | (Inr (plan_path, state, error), w1) \<Rightarrow>
                if error \<noteq> [] then (Inr error, w1)
                else (case (state, plan_path) of
                        (Some s, Some path) \<Rightarrow>
                          (let (timestamp, w2) = now_utc_iso e w1;
                               s' = set_subgoals_state normalized_subgoals replace timestamp s;
                               (write_result, w3) = write_state e path s' w2
                           in if startswith write_result ''Error:'' then (Inr write_result, w3)
                              else (Inr ((if replace then ''Set'' else ''Updated'') @ '' ''
                                         @ show_nat (length (subgoals s')) @ '' subgoal(s) in '' @ path),
                                    w3))
                      | _ \<Rightarrow> (Inr ''Error: Unable to load plan state'', w1))))"

definition track_progress_state ::
  "string \<Rightarrow> int option \<Rightarrow> bool \<Rightarrow> string \<Rightarrow> plan_state \<Rightarrow> plan_state" where
  "track_progress_state note percent complete_plan timestamp s =
     (let s1 = s\<lparr>progress_log := progress_log s
                   @ [\<lparr>p_timestamp = timestamp, p_message = note,
                        p_percent = map_option PInt percent\<rparr>]\<rparr>;
          s2 = (case percent of None \<Rightarrow> s1 | Some p \<Rightarrow> s1\<lparr>percent_complete := Some (PInt p)\<rparr>);
          s3 = (if complete_plan \<or> percent = Some 100
                then s2\<lparr>steps := mark_all_completed (steps s2),
                        subgoals := mark_all_completed (subgoals s2),
                        status := ''completed'', percent_complete := Some (PInt 100)\<rparr>
                else (let s4 = s2\<lparr>status := (if steps s2 \<noteq> [] \<and> all_completed (steps s2)
                                                then ''completed'' else ''active'')\<rparr>
                      in if percent = None then recompute_percent_from_steps s4 else s4))
      in s3\<lparr>updated_at := timestamp\<rparr>)"

definition show_percent :: "pyint option \<Rightarrow> string" where
  "show_percent p = (case p of None \<Rightarrow> ''None'' | Some x \<Rightarrow> show_pyint x)"

definition track_progress ::
  "env \<Rightarrow> string \<Rightarrow> int option \<Rightarrow> string \<Rightarrow> bool \<Rightarrow> bool \<Rightarrow> world \<Rightarrow> (failure + string) \<times> world"
  where
  "track_progress e message percent plan_file complete_plan cleanup_plan_file w =
     (let note = strip message in
      if note = [] then (Inr ''Error: message must not be empty'', w)
      else if (case percent of None \<Rightarrow> False | Some p \<Rightarrow> p < 0 \<or> p > 100)
        then (Inr ''Error: percent_complete must be between 0 and 100'', w)
      else (case read_existing_state e plan_file w of
              (Inl err, w1) \<Rightarrow> (Inl err, w1)
            | (Inr (plan_path, state, error), w1) \<Rightarrow>
                if error \<noteq> [] then (Inr error, w1)
                else (case (state, plan_path) of
                        (Some s, Some path) \<Rightarrow>
                          (let (timestamp, w2) = now_utc_iso e w1;
                               s' = track_progress_state note percent complete_plan timestamp s;
                               (write_result, w3) = write_state e path s' w2
                           in if startswith write_result ''Error:'' then (Inr write_result, w3)
                              else (case maybe_cleanup_plan_file e path cleanup_plan_file s' w3 of
                                      (Some cleanup_result, w4) \<Rightarrow> (Inr cleanup_result, w4)
                                    | (None, w4) \<Rightarrow>
                                        (Inr (''Logged progress in '' @ path @ '' (status=''
                                              @ status s' @ '', progress=''
                                              @ show_percent (percent_complete s') @ ''%)''), w4)))
                      | _ \<Rightarrow> (Inr ''Error: Unable to load plan state'', w1))))"

definition reflect_on_plan_state ::
  "string \<Rightarrow> string list option \<Rightarrow> string list option \<Rightarrow> bool \<Rightarrow> string \<Rightarrow> plan_state
   \<Rightarrow> plan_state" where
  "reflect_on_plan_state summary_text risks next_actions finalize timestamp s =
     (let s1 = s\<lparr>reflections := reflections s
                   @ [\<lparr>r_timestamp = timestamp, r_summary = summary_text,
                        r_risks = normalize_text_items risks,
                        r_next_actions = normalize_text_items next_actions\<rparr>]\<rparr>;
          s2 = (if finalize
                then s1\<lparr>steps := mark_all_completed (steps s1),
                        subgoals := mark_all_completed (subgoals s1),
                        status := ''completed'', percent_complete := Some (PInt 100)\<rparr>
                else recompute_percent_from_steps s1)
      in s2\<lparr>updated_at := timestamp\<rparr>)"

definition reflect_on_plan ::
  "env \<Rightarrow> string \<Rightarrow> string list option \<Rightarrow> string list option \<Rightarrow> string \<Rightarrow> bool \<Rightarrow> bool
   \<Rightarrow> world \<Rightarrow> (failure + string) \<times> world" where
  "reflect_on_plan e summary risks next_actions plan_file finalize cleanup_plan_file w =
     (let summary_text = strip summary in
      if summary_text = [] then (Inr ''Error: summary must not be empty'', w)
      else (case read_existing_state e plan_file w of
              (Inl err, w1) \<Rightarrow> (Inl err, w1)
            | (Inr (plan_path, state, error), w1) \<Rightarrow>
                if error \<noteq> [] then (Inr error, w1)
                else (case (state, plan_path) of
                        (Some s, Some path) \<Rightarrow>
                          (let (timestamp, w2) = now_utc_iso e w1;
                               s' = reflect_on_plan_state summary_text risks next_actions finalize
                                      timestamp s;
                               (write_result, w3) = write_state e path s' w2
                           in if startswith write_result ''Error:'' then (Inr write_result, w3)
                              else (case maybe_cleanup_plan_file e path cleanup_plan_file s' w3 of
                                      (Some cleanup_result, w4) \<Rightarrow> (Inr cleanup_result, w4)
                                    | (None, w4) \<Rightarrow>
                                        (Inr (''Recorded reflection in '' @ path
                                              @ '' (total reflections=''
                                              @ show_nat (length (reflections s')) @ '')''), w4)))
                      | _ \<Rightarrow> (Inr ''Error: Unable to load plan state'', w1))))"

section \<open>Notions used to state the properties\<close>

text \<open>A returned message reports an error when it starts with \<open>Error:\<close>.\<close>

definition is_error :: "string \<Rightarrow> bool" where
  "is_error msg = startswith msg ''Error:''"

text \<open>The file-system accesses of a call that led from world \<open>w\<close> to world \<open>w'\<close>.\<close>

definition new_events :: "world \<Rightarrow> world \<Rightarrow> io_event list" where
  "new_events w w' = drop (length (io_log w)) (io_log w')"

fun is_write :: "io_event \<Rightarrow> bool" where
  "is_write (Ev_write p c) = True"
| "is_write _ = False"

text \<open>The call persisted state \<open>s\<close> at \<open>path\<close>: its one write is the document of \<open>s\<close>.\<close>

definition persisted_by :: "world \<Rightarrow> world \<Rightarrow> string \<Rightarrow> plan_state \<Rightarrow> bool" where
  "persisted_by w w' path s =
     (filter is_write (new_events w w') = [Ev_write path (serialize_markdown s)])"

definition completed_count :: "item list \<Rightarrow> nat" where
  "completed_count items = length (filter (\<lambda>it. i_status it = ''completed'') items)"

definition in_progress_count :: "item list \<Rightarrow> nat" where
  "in_progress_count items = length (filter (\<lambda>it. i_status it = ''in_progress'') items)"

text \<open>The percentage \<open>_recompute_percent_from_steps\<close> stores for a list of steps.\<close>

definition step_percent :: "item list \<Rightarrow> int" where
  "step_percent items =
     (if items = [] then 0 else percent_of (completed_count items) (length items))"

text \<open>
  The plan states that sequences of the operations produce, starting from
  \<open>create_plan\<close>: each operation, when its checks pass, takes the state the previous one
  persisted to its new state.
\<close>

inductive reachable :: "plan_state \<Rightarrow> bool" where
  created:
    "task_text = strip tsk \<Longrightarrow> task_text \<noteq> [] \<Longrightarrow> given = normalize_text_items stps
     \<Longrightarrow> normalized_steps = (if given = [] then decompose_task task_text 6 else given)
     \<Longrightarrow> \<not> (given = [] \<and> normalized_steps \<noteq> [] \<and> startswith (hd normalized_steps) ''Error:'')
     \<Longrightarrow> reachable (create_state task_text normalized_steps ts)"
| updated:
    "reachable s \<Longrightarrow> 1 \<le> n \<Longrightarrow> st \<in> VALID_STATUSES \<Longrightarrow> steps s \<noteq> []
     \<Longrightarrow> n \<le> int (length (steps s))
     \<Longrightarrow> reachable (update_plan_state n st nt ts s)"
| subgoals_set:
    "reachable s \<Longrightarrow> normalized_subgoals = normalize_text_items (Some subs)
     \<Longrightarrow> normalized_subgoals \<noteq> []
     \<Longrightarrow> reachable (set_subgoals_state normalized_subgoals replace ts s)"
| progress_tracked:
    "reachable s \<Longrightarrow> strip message \<noteq> []
     \<Longrightarrow> \<not> (case percent of None \<Rightarrow> False | Some p \<Rightarrow> p < 0 \<or> p > 100)
     \<Longrightarrow> reachable (track_progress_state (strip message) percent complete_plan ts s)"
| reflected:
    "reachable s \<Longrightarrow> strip summary \<noteq> []
     \<Longrightarrow> reachable (reflect_on_plan_state (strip summary) risks next_actions finalize ts s)"

text \<open>
  The effect on the persisted state of a sequence of \<open>update_plan\<close> calls, each given as
  step number, status, note and the clock reading; a rejected call changes nothing.
\<close>

fun apply_updates :: "(int \<times> string \<times> string \<times> string) list \<Rightarrow> plan_state \<Rightarrow> plan_state" where
  "apply_updates [] s = s"
| "apply_updates ((n, st, nt, ts) # calls) s =
     apply_updates calls
       (if 1 \<le> n \<and> st \<in> VALID_STATUSES \<and> steps s \<noteq> [] \<and> n \<le> int (length (steps s))
        then update_plan_state n st nt ts s else s)"

section \<open>Sample inputs\<close>

text \<open>An environment without failures and worlds with a small plan document.\<close>

definition example_env :: env where
  "example_env =
     \<lparr>clock = (\<lambda>n. ''T'' @ show_nat n), container_repr = (\<lambda>j. ''[]''),
      float_repr = (\<lambda>l. l), decode_message = (\<lambda>t. ''invalid''),
      resolve = (\<lambda>p. Inr p), as_posix = (\<lambda>p. ''/ws/'' @ p),
      read_error = (\<lambda>p. None), write_error = (\<lambda>p. None), unlink_error = (\<lambda>p. None)\<rparr>"

definition world_with :: "string \<Rightarrow> world" where
  "world_with doc =
     \<lparr>nodes = (\<lambda>p. if p = ''plan.md'' then Some (File doc) else None), ticks = 0, io_log = []\<rparr>"

definition two_step_doc :: string where
  "two_step_doc =
     STATE_START @ ''```json{'' @ [CHR 0x22] @ ''steps'' @ [CHR 0x22] @ '':[''
       @ [CHR 0x22] @ ''a'' @ [CHR 0x22] @ '','' @ [CHR 0x22] @ ''b'' @ [CHR 0x22]
       @ '']}```'' @ STATE_END"


definition example_state :: plan_state where
  "example_state =
     update_plan_state 1 ''completed'' [] ''t2''
       (set_subgoals_state [''goal''] True ''t1'' (create_state ''task'' [''step''] ''t0''))"

text \<open>
  The outcomes of a call that asked for cleanup and persisted state \<open>s'\<close>: an error with
  the file kept when the plan is not completed; the file removed when it is and the
  deletion succeeds; a warning, not an error, with the file kept when the deletion fails.
\<close>

definition cleanup_outcome ::
  "env \<Rightarrow> string \<Rightarrow> plan_state \<Rightarrow> failure + string \<Rightarrow> world \<Rightarrow> bool" where
  "cleanup_outcome e path s' r w' =
     (if status s' \<noteq> ''completed''
      then (\<exists>msg. r = Inr msg \<and> is_error msg)
           \<and> nodes w' path = Some (File (serialize_markdown s'))
      else if unlink_error e path = None
      then (\<exists>msg. r = Inr msg \<and> \<not> is_error msg) \<and> nodes w' path = None
      else (\<exists>msg. r = Inr msg \<and> startswith msg ''Warning:'' \<and> \<not> is_error msg)
           \<and> nodes w' path = Some (File (serialize_markdown s')))"

text \<open>The state that \<open>two_step_doc\<close> loads to.\<close>

definition two_step_state :: plan_state where
  "two_step_state =
     \<lparr>task = [], status = ''active'', created_at = ''T0'', updated_at = ''T0'',
      percent_complete = None,
      steps = [\<lparr>i_id = 1, i_description = ''a'', i_status = ''pending''\<rparr>,
               \<lparr>i_id = 2, i_description = ''b'', i_status = ''pending''\<rparr>],
      subgoals = [], progress_log = [], reflections = []\<rparr>"


definition one_step_doc :: string where
  "one_step_doc =
     STATE_START @ ''```json{'' @ [CHR 0x22] @ ''steps'' @ [CHR 0x22] @ '':[''
       @ [CHR 0x22] @ ''a'' @ [CHR 0x22] @ '']}```'' @ STATE_END"

definition one_step_state :: plan_state where
  "one_step_state =
     \<lparr>task = [], status = ''active'', created_at = ''T0'', updated_at = ''T0'',
      percent_complete = None,
      steps = [\<lparr>i_id = 1, i_description = ''a'', i_status = ''pending''\<rparr>],
      subgoals = [], progress_log = [], reflections = []\<rparr>"

text \<open>A plan of forty steps: the first 22 completed, the 23rd in progress.\<close>

definition forty_step_state :: plan_state where
  "forty_step_state =
     one_step_state\<lparr>steps :=
       map (\<lambda>i. \<lparr>i_id = i, i_description = ''s'',
                  i_status = (if i < 23 then ''completed''
                              else if i = 23 then ''in_progress'' else ''pending'')\<rparr>)
         [1..<41]\<rparr>"

section \<open>Notions for the round trip\<close>

text \<open>
  The values \<open>json.dumps\<close> prints here: no floats, and no key twice in an object.
  \<open>canon\<close> is the value with the members of every object in key order, which is what
  parsing the printed text gives back.
\<close>

fun printable :: "json \<Rightarrow> bool"
  and printable_elements :: "json list \<Rightarrow> bool"
  and printable_members :: "(string \<times> json) list \<Rightarrow> bool" where
  "printable (JFloat r) = False"
| "printable (JList xs) = printable_elements xs"
| "printable (JObj kvs) = (distinct (map fst kvs) \<and> printable_members kvs)"
| "printable JNull = True"
| "printable (JBool b) = True"
| "printable (JInt i) = True"
| "printable (JStr s) = True"
| "printable_elements [] = True"
| "printable_elements (x # xs) = (printable x \<and> printable_elements xs)"
| "printable_members [] = True"
| "printable_members ((k, v) # kvs) = (printable v \<and> printable_members kvs)"

fun canon :: "json \<Rightarrow> json"
  and canon_elements :: "json list \<Rightarrow> json list"
  and canon_members :: "(string \<times> json) list \<Rightarrow> (string \<times> json) list" where
  "canon (JList xs) = JList (canon_elements xs)"
| "canon (JObj kvs) = JObj (sort_key fst (canon_members kvs))"
| "canon JNull = JNull"
| "canon (JBool b) = JBool b"
| "canon (JInt i) = JInt i"
| "canon (JFloat r) = JFloat r"
| "canon (JStr s) = JStr s"
| "canon_elements [] = []"
| "canon_elements (x # xs) = canon x # canon_elements xs"
| "canon_members [] = []"
| "canon_members ((k, v) # kvs) = (k, canon v) # canon_members kvs"

text \<open>A text occurs in another.\<close>

fun occurs :: "string \<Rightarrow> string \<Rightarrow> bool" where
  "occurs pat [] = (pat = [])"
| "occurs pat (c # cs) = (startswith (c # cs) pat \<or> occurs pat cs)"

text \<open>The document before the start sentinel.\<close>

definition prose :: "plan_state \<Rightarrow> string" where
  "prose s = join nl (prose_lines s) @ nl"

text \<open>The clock returns a timestamp: a text that is not blank and has no blank ends.\<close>

definition clock_ok :: "env \<Rightarrow> bool" where
  "clock_ok e = (\<forall>n. clock e n \<noteq> [] \<and> strip (clock e n) = clock e n)"

text \<open>A text as the coercer leaves it: stripped; and one it keeps: not blank either.\<close>

definition stripped :: "string \<Rightarrow> bool" where
  "stripped x = (strip x = x)"

definition kept :: "string \<Rightarrow> bool" where
  "kept x = (x \<noteq> [] \<and> strip x = x)"

definition wf_items :: "item list \<Rightarrow> bool" where
  "wf_items items =
     (map i_id items = [1..<Suc (length items)]
      \<and> list_all (\<lambda>it. kept (i_description it) \<and> i_status it \<in> VALID_STATUSES) items)"

definition wf_texts :: "string list \<Rightarrow> bool" where
  "wf_texts xs = (distinct xs \<and> list_all kept xs)"

text \<open>The shape of the states that the coercer returns.\<close>

definition wf_state :: "plan_state \<Rightarrow> bool" where
  "wf_state s =
     (stripped (task s) \<and> (status s = ''active'' \<or> status s = ''completed'')
      \<and> kept (created_at s) \<and> kept (updated_at s)
      \<and> (case percent_complete s of None \<Rightarrow> True | Some p \<Rightarrow> 0 \<le> int_of p \<and> int_of p \<le> 100)
      \<and> wf_items (steps s) \<and> wf_items (subgoals s)
      \<and> list_all (\<lambda>en. kept (p_timestamp en) \<and> kept (p_message en)) (progress_log s)
      \<and> list_all (\<lambda>r. kept (r_timestamp r) \<and> kept (r_summary r)
                       \<and> wf_texts (r_risks r) \<and> wf_texts (r_next_actions r)) (reflections s))"

text \<open>A coerced state whose task holds the start sentinel, a fence and a brace.\<close>

definition marker_state :: plan_state where
  "marker_state =
     \<lparr>task = STATE_START @ ''```json{'', status = ''active'', created_at = ''T0'',
      updated_at = ''T0'', percent_complete = None, steps = [], subgoals = [],
      progress_log = [], reflections = []\<rparr>"

text \<open>What may follow a printed integer: nothing a number could go on with.\<close>

definition number_end :: "string \<Rightarrow> bool" where
  "number_end rest =
     (case rest of
        [] \<Rightarrow> True
      | c # _ \<Rightarrow> \<not> is_digit c \<and> c \<noteq> CHR ''.'' \<and> c \<noteq> CHR ''e'' \<and> c \<noteq> CHR ''E'')"

text \<open>The characters a printed value can start with.\<close>

definition value_start :: "char \<Rightarrow> bool" where
  "value_start c =
     (is_digit c \<or> c = CHR ''-'' \<or> c = CHR 0x22 \<or> c = CHR ''['' \<or> c = CHR ''{''
      \<or> c = CHR ''n'' \<or> c = CHR ''t'' \<or> c = CHR ''f'')"

text \<open>
  With enough calls allowed, the printed text of \<open>j\<close> at any indentation, followed by any
  text that does not continue a number, parses to the canonical \<open>j\<close> and leaves that text.
\<close>

definition parses :: "env \<Rightarrow> json \<Rightarrow> bool" where
  "parses e j =
     (\<exists>f0. \<forall>f\<ge>f0. \<forall>level rest. number_end rest \<longrightarrow>
        parse_value e f (dumps_at level j @ rest) = Inr (canon j, rest))"

section \<open>Properties of the coercer\<close>

text \<open>
  C5. The coercer is claimed to return, for every JSON object, a structurally valid
  state without raising. On an object whose reflection has the number 5 as its
  \<open>risks\<close>, the loop of \<open>_normalize_text_items\<close> iterates the number and
  \<open>TypeError\<close> is raised.
\<close>

theorem coerce_state_risks_number:
  "coerce_state e 0
     [(''reflections'', JList [JObj [(''summary'', JStr ''s''), (''risks'', JInt 5)]])]
   = Inl TypeError"
  by (simp add: coerce_state_def coerce_reflections_def coerce_progress_def coerce_item_list_def
      dict_get_none_def dict_get_def text_or_now_def strip_def strip_chars_def py_isspace_def
      coerce_percent_def Let_def)

section \<open>Steps under \<open>update_plan\<close>\<close>

lemma length_demote_others [simp]: "length (demote_others n xs) = length xs"
  by (simp add: demote_others_def)

lemma nth_demote_others:
  "k < length xs \<Longrightarrow>
   demote_others n xs ! k =
     (if int (Suc k) \<noteq> n \<and> i_status (xs ! k) = ''in_progress''
      then (xs ! k)\<lparr>i_status := ''pending''\<rparr> else xs ! k)"
  by (simp add: demote_others_def nth_enumerate_eq)

lemma filter_single_index:
  "k < length xs \<Longrightarrow> (\<forall>i<length xs. P (xs ! i) = (i = k)) \<Longrightarrow> length (filter P xs) = 1"
proof (induction xs arbitrary: k)
  case Nil
  then show ?case by simp
next
  case (Cons x xs)
  show ?case
  proof (cases k)
    case 0
    with Cons.prems have px: "P x" by force
    from Cons.prems 0 have "\<forall>i<length xs. \<not> P (xs ! i)" by force
    then have "filter P xs = []" by (auto simp: filter_empty_conv in_set_conv_nth)
    with px show ?thesis by simp
  next
    case (Suc j)
    with Cons.prems have npx: "\<not> P x" by force
    from Cons.prems Suc have "j < length xs" by simp
    moreover from Cons.prems Suc have "\<forall>i<length xs. P (xs ! i) = (i = j)" by force
    ultimately have "length (filter P xs) = 1" by (rule Cons.IH)
    with npx show ?thesis by simp
  qed
qed

lemma filter_update_le:
  "\<not> P y \<Longrightarrow> length (filter P (xs[k := y])) \<le> length (filter P xs)"
proof (induction xs arbitrary: k)
  case Nil
  then show ?case by simp
next
  case (Cons x xs)
  then show ?case by (cases k) (auto simp: le_SucI)
qed

lemma steps_update_plan_state:
  "steps (update_plan_state n st note ts s) =
     (let steps1 = (if st = ''in_progress'' then demote_others n (steps s) else steps s)
      in steps1[nat (n - 1) := (steps1 ! nat (n - 1))\<lparr>i_status := st\<rparr>])"
  by (simp add: update_plan_state_def recompute_percent_from_steps_def Let_def)

lemma length_steps_update_plan_state [simp]:
  "length (steps (update_plan_state n st note ts s)) = length (steps s)"
  by (simp add: steps_update_plan_state Let_def)

lemma status_update_plan_state:
  "status (update_plan_state n st note ts s) =
     (if steps (update_plan_state n st note ts s) \<noteq> []
         \<and> all_completed (steps (update_plan_state n st note ts s))
      then ''completed'' else ''active'')"
  by (simp add: update_plan_state_def recompute_percent_from_steps_def Let_def)

lemma percent_update_plan_state:
  "percent_complete (update_plan_state n st note ts s) =
     (let xs = steps (update_plan_state n st note ts s)
      in if xs = [] then Some (PInt 0)
         else Some (PInt (percent_of (length (filter (\<lambda>it. i_status it = ''completed'') xs)) (length xs))))"
  by (simp add: update_plan_state_def recompute_percent_from_steps_def Let_def)

lemma nth_steps_in_progress:
  assumes "1 \<le> n" "n \<le> int (length (steps s))" "k < length (steps s)"
  shows "i_status (steps (update_plan_state n ''in_progress'' note ts s) ! k) =
           (if int k + 1 = n then ''in_progress''
            else if i_status (steps s ! k) = ''in_progress'' then ''pending''
            else i_status (steps s ! k))"
proof -
  have kk: "nat (n - 1) < length (steps s)" using assms by linarith
  have eq: "(nat (n - 1) = k) = (int k + 1 = n)" using assms by linarith
  show ?thesis
    using assms kk eq
    by (auto simp: steps_update_plan_state nth_demote_others nth_list_update)
qed

lemma one_in_progress:
  assumes "1 \<le> n" "n \<le> int (length (steps s))"
  shows "length (filter (\<lambda>it. i_status it = ''in_progress'')
           (steps (update_plan_state n ''in_progress'' note ts s))) = 1"
proof (rule filter_single_index[where k = "nat (n - 1)"])
  show "nat (n - 1) < length (steps (update_plan_state n ''in_progress'' note ts s))"
    using assms by simp
  show "\<forall>i<length (steps (update_plan_state n ''in_progress'' note ts s)).
          (i_status (steps (update_plan_state n ''in_progress'' note ts s) ! i) = ''in_progress'')
          = (i = nat (n - 1))"
  proof (intro allI impI)
    fix i assume "i < length (steps (update_plan_state n ''in_progress'' note ts s))"
    then have i: "i < length (steps s)" by simp
    have "(int i + 1 = n) = (i = nat (n - 1))" using assms by linarith
    then show "(i_status (steps (update_plan_state n ''in_progress'' note ts s) ! i) = ''in_progress'')
          = (i = nat (n - 1))"
      using nth_steps_in_progress[OF assms i, of "note" ts] by auto
  qed
qed

lemma at_most_one_preserved:
  assumes "1 \<le> n" "n \<le> int (length (steps s))"
    and "length (filter (\<lambda>it. i_status it = ''in_progress'') (steps s)) \<le> 1"
  shows "length (filter (\<lambda>it. i_status it = ''in_progress'')
           (steps (update_plan_state n st note ts s))) \<le> 1"
proof (cases "st = ''in_progress''")
  case True
  then show ?thesis using one_in_progress[OF assms(1,2)] by simp
next
  case False
  then have "length (filter (\<lambda>it. i_status it = ''in_progress'')
           (steps (update_plan_state n st note ts s)))
     \<le> length (filter (\<lambda>it. i_status it = ''in_progress'') (steps s))"
    by (simp add: steps_update_plan_state filter_update_le Let_def)
  with assms(3) show ?thesis by linarith
qed

section \<open>The store and the calls\<close>

lemma is_error_Error [simp]:
  "is_error (CHR ''E'' # CHR ''r'' # CHR ''r'' # CHR ''o'' # CHR ''r'' # CHR '':'' # m)"
  by (simp add: is_error_def startswith_def)

lemma write_state_result:
  "write_state e path s w = (r, w') \<Longrightarrow>
     (is_error r \<and> nodes w' = nodes w \<and> ticks w' = ticks w
        \<and> io_log w' = io_log w @ [Ev_write_failed path])
     \<or> (r = ''Saved plan to '' @ path
        \<and> nodes w' = (nodes w)(path \<mapsto> File (serialize_markdown s)) \<and> ticks w' = ticks w
        \<and> io_log w' = io_log w @ [Ev_write path (serialize_markdown s)])"
  by (auto simp: write_state_def logged_def is_error_def startswith_def split: option.splits if_splits)

lemma not_error_Saved [simp]: "\<not> is_error (CHR ''S'' # m)"
  by (simp add: is_error_def startswith_def)

lemma write_state_ok:
  "write_error e path = None \<Longrightarrow> nodes w path \<noteq> Some Dir \<Longrightarrow>
   write_state e path s w =
     (''Saved plan to '' @ path,
      w\<lparr>nodes := (nodes w)(path \<mapsto> File (serialize_markdown s)),
        io_log := io_log w @ [Ev_write path (serialize_markdown s)]\<rparr>)"
  by (simp add: write_state_def logged_def)

lemma read_existing_state_shape:
  assumes "read_existing_state e pf w = (r, w1)"
  shows "nodes w1 = nodes w \<and> filter is_write (new_events w w1) = []
         \<and> (case r of
               Inl err \<Rightarrow> True
             | Inr (p, st, err) \<Rightarrow>
                 if err = [] then
                   (\<exists>path s content. p = Some path \<and> st = Some s \<and> resolve e pf = Inr path
                      \<and> nodes w path = Some (File content) \<and> read_error e path = None
                      \<and> load_state_from_markdown e (ticks w) content = Inr (s, ticks w1))
                 else is_error err \<and> st = None)"
  using assms
  by (auto simp: read_existing_state_def logged_def new_events_def Let_def
      split: sum.splits option.splits node.splits failure.splits prod.splits)


lemma new_events_append:
  "io_log w' = io_log w @ evs \<Longrightarrow> new_events w w' = evs"
  by (simp add: new_events_def)

lemma read_existing_state_log:
  "read_existing_state e pf w = (r, w1) \<Longrightarrow>
     \<exists>evs. io_log w1 = io_log w @ evs \<and> filter is_write evs = []"
  by (auto simp: read_existing_state_def logged_def Let_def
      split: sum.splits option.splits node.splits failure.splits prod.splits)

lemma read_existing_state_cases:
  assumes "read_existing_state e pf w = (r, w1)"
  obtains (raised) err where "r = Inl err"
  | (failed) p err where "r = Inr (p, None, err)" "is_error err" "err \<noteq> []"
  | (loaded) path s content where "r = Inr (Some path, Some s, [])" "resolve e pf = Inr path"
      "nodes w path = Some (File content)" "read_error e path = None"
      "load_state_from_markdown e (ticks w) content = Inr (s, ticks w1)"
proof (cases r)
  case (Inl err)
  then show ?thesis by (rule raised)
next
  case (Inr t)
  obtain p st err where t: "t = (p, st, err)" by (cases t)
  show ?thesis
  proof (cases "err = []")
    case True
    with read_existing_state_shape[OF assms] Inr t loaded show ?thesis by auto
  next
    case False
    with read_existing_state_shape[OF assms] Inr t have "is_error err" "st = None" by auto
    with Inr t False failed show ?thesis by auto
  qed
qed

lemma update_plan_loaded:
  assumes "read_existing_state e pf w = (Inr (Some path, Some s, []), w1)"
    and "1 \<le> n" "st \<in> VALID_STATUSES" "steps s \<noteq> []" "n \<le> int (length (steps s))"
    and "write_state e path (update_plan_state n st nt (clock e (ticks w1)) s)
           (w1\<lparr>ticks := Suc (ticks w1)\<rparr>) = (wr, w3)"
  shows "update_plan e n st nt pf w =
           (if is_error wr then (Inr wr, w3)
            else (Inr (''Updated step '' @ show_int n @ '' to '' @ [CHR 0x27] @ st @ [CHR 0x27]
                       @ '' in '' @ path), w3))"
  using assms by (simp add: update_plan_def now_utc_iso_def is_error_def)

lemma update_plan_success:
  assumes run: "update_plan e n st nt pf w = (Inr msg, w')" and ok: "\<not> is_error msg"
  shows "\<exists>path s w1.
           read_existing_state e pf w = (Inr (Some path, Some s, []), w1)
           \<and> 1 \<le> n \<and> st \<in> VALID_STATUSES \<and> steps s \<noteq> [] \<and> n \<le> int (length (steps s))
           \<and> nodes w' = (nodes w)(path \<mapsto>
                 File (serialize_markdown (update_plan_state n st nt (clock e (ticks w1)) s)))
           \<and> persisted_by w w' path (update_plan_state n st nt (clock e (ticks w1)) s)"
proof -
  obtain r w1 where rd: "read_existing_state e pf w = (r, w1)"
    by (cases "read_existing_state e pf w")
  have n1: "1 \<le> n"
  proof (rule ccontr)
    assume "\<not> 1 \<le> n"
    then have "update_plan e n st nt pf w = (Inr ''Error: step_number must be >= 1'', w)"
      by (simp add: update_plan_def)
    with run ok show False by auto
  qed
  have stv: "st \<in> VALID_STATUSES"
  proof (rule ccontr)
    assume "st \<notin> VALID_STATUSES"
    with n1 have "update_plan e n st nt pf w =
      (Inr ''Error: status must be one of: pending, in_progress, completed, blocked'', w)"
      by (simp add: update_plan_def)
    with run ok show False by auto
  qed
  have unf: "update_plan e n st nt pf w =
     (case (r, w1) of
              (Inl err, w1) \<Rightarrow> (Inl err, w1)
            | (Inr (plan_path, state, error), w1) \<Rightarrow>
                if error \<noteq> [] then (Inr error, w1)
                else (case (state, plan_path) of
                        (Some s, Some path) \<Rightarrow>
                          if steps s = [] then (Inr ''Error: Plan has no steps to update'', w1)
                          else if n > int (length (steps s))
                            then (Inr (''Error: step_number '' @ show_int n
                                       @ '' is out of range (1..'' @ show_nat (length (steps s))
                                       @ '')''), w1)
                          else (let (timestamp, w2) = now_utc_iso e w1;
                                    s' = update_plan_state n st nt timestamp s;
                                    (write_result, w3) = write_state e path s' w2
                                in if startswith write_result ''Error:'' then (Inr write_result, w3)
                                   else (Inr (''Updated step '' @ show_int n @ '' to ''
                                              @ [CHR 0x27] @ st @ [CHR 0x27] @ '' in '' @ path), w3))
                      | _ \<Rightarrow> (Inr ''Error: Unable to load plan state'', w1)))"
    using n1 stv rd by (simp add: update_plan_def)
  from rd show ?thesis
  proof (cases rule: read_existing_state_cases)
    case (raised err)
    with unf run show ?thesis by auto
  next
    case (failed p err)
    with unf run ok show ?thesis by auto
  next
    case (loaded path s content)
    have st1: "steps s \<noteq> []"
    proof
      assume "steps s = []"
      with unf loaded run ok show False by auto
    qed
    have st2: "n \<le> int (length (steps s))"
    proof (rule ccontr)
      assume "\<not> n \<le> int (length (steps s))"
      with unf loaded run st1 have "msg = ''Error: step_number '' @ show_int n
                                       @ '' is out of range (1..'' @ show_nat (length (steps s))
                                       @ '')''" by simp
      with ok show False by auto
    qed
    let ?s' = "update_plan_state n st nt (clock e (ticks w1)) s"
    obtain wr w3 where ws: "write_state e path ?s' (w1\<lparr>ticks := Suc (ticks w1)\<rparr>) = (wr, w3)"
      by (cases "write_state e path ?s' (w1\<lparr>ticks := Suc (ticks w1)\<rparr>)")
    from rd loaded(1) have rd': "read_existing_state e pf w = (Inr (Some path, Some s, []), w1)"
      by simp
    from update_plan_loaded[OF rd' n1 stv st1 st2 ws] run ok
    have wr: "\<not> is_error wr" and w3: "w' = w3"
      by (auto split: if_splits)
    from write_state_result[OF ws] wr have
      w3n: "nodes w3 = (nodes w1)(path \<mapsto> File (serialize_markdown ?s'))"
      and w3l: "io_log w3 = io_log w1 @ [Ev_write path (serialize_markdown ?s')]"
      by auto
    from read_existing_state_shape[OF rd] have nodes1: "nodes w1 = nodes w" by simp
    from read_existing_state_log[OF rd] obtain evs where
      evs: "io_log w1 = io_log w @ evs" "filter is_write evs = []" by blast
    have "persisted_by w w' path ?s'"
      using w3 w3l evs by (simp add: persisted_by_def new_events_def)
    with rd' n1 stv st1 st2 w3 w3n nodes1 show ?thesis by auto
  qed
qed
lemma apply_updates_at_most_one:
  "in_progress_count (steps s) \<le> 1 \<Longrightarrow> in_progress_count (steps (apply_updates calls s)) \<le> 1"
proof (induction calls arbitrary: s)
  case Nil
  then show ?case by simp
next
  case (Cons c calls)
  obtain n st nt ts where c: "c = (n, st, nt, ts)" by (cases c)
  show ?case
  proof (cases "1 \<le> n \<and> st \<in> VALID_STATUSES \<and> steps s \<noteq> [] \<and> n \<le> int (length (steps s))")
    case True
    then have "in_progress_count (steps (update_plan_state n st nt ts s)) \<le> 1"
      using at_most_one_preserved[of n s st nt ts] Cons.prems by (simp add: in_progress_count_def)
    from Cons.IH[OF this] True c show ?thesis by simp
  next
    case False
    with Cons.IH[OF Cons.prems] c show ?thesis by auto
  qed
qed

section \<open>C3: one step in progress\<close>

text \<open>
  C3. After a successful \<open>update_plan\<close> call with status \<open>in_progress\<close> on the loaded
  state \<open>s\<close>, the persisted state \<open>s'\<close> has exactly one step in progress, the targeted
  one; every other step that was in progress is pending, the remaining steps keep
  their status; and whatever \<open>update_plan\<close> calls follow, at most one step is in
  progress.
\<close>

theorem update_plan_in_progress:
  assumes "update_plan e n ''in_progress'' nt pf w = (Inr msg, w')" and "\<not> is_error msg"
  shows "\<exists>path s w1 s'.
           read_existing_state e pf w = (Inr (Some path, Some s, []), w1)
           \<and> nodes w' path = Some (File (serialize_markdown s'))
           \<and> persisted_by w w' path s'
           \<and> length (steps s') = length (steps s)
           \<and> in_progress_count (steps s') = 1
           \<and> (\<forall>k<length (steps s).
                 i_status (steps s' ! k) =
                   (if int k + 1 = n then ''in_progress''
                    else if i_status (steps s ! k) = ''in_progress'' then ''pending''
                    else i_status (steps s ! k)))
           \<and> (\<forall>calls. in_progress_count (steps (apply_updates calls s')) \<le> 1)"
proof -
  from update_plan_success[OF assms] obtain path s w1 where
    rd: "read_existing_state e pf w = (Inr (Some path, Some s, []), w1)"
    and n: "1 \<le> n" "n \<le> int (length (steps s))"
    and nd: "nodes w' = (nodes w)(path \<mapsto>
                 File (serialize_markdown (update_plan_state n ''in_progress'' nt (clock e (ticks w1)) s)))"
    and ps: "persisted_by w w' path (update_plan_state n ''in_progress'' nt (clock e (ticks w1)) s)"
    by blast
  let ?s' = "update_plan_state n ''in_progress'' nt (clock e (ticks w1)) s"
  have one: "in_progress_count (steps ?s') = 1"
    using one_in_progress[OF n] by (simp add: in_progress_count_def)
  have each: "\<forall>k<length (steps s).
                 i_status (steps ?s' ! k) =
                   (if int k + 1 = n then ''in_progress''
                    else if i_status (steps s ! k) = ''in_progress'' then ''pending''
                    else i_status (steps s ! k))"
    using nth_steps_in_progress[OF n] by blast
  have later: "\<forall>calls. in_progress_count (steps (apply_updates calls ?s')) \<le> 1"
    using apply_updates_at_most_one[of ?s'] one by simp
  from nd have "nodes w' path = Some (File (serialize_markdown ?s'))" by simp
  with rd ps one each later show ?thesis
    by (intro exI[of _ path] exI[of _ s] exI[of _ w1] exI[of _ ?s']) simp
qed

theorem update_plan_in_progress_witness:
  "fst (update_plan example_env 2 ''in_progress'' ''go'' ''plan.md'' (world_with two_step_doc))
     = Inr ''Updated step 2 to 'in_progress' in plan.md''
   \<and> \<not> is_error ''Updated step 2 to 'in_progress' in plan.md''
   \<and> (\<exists>path s w1 s'.
         read_existing_state example_env ''plan.md'' (world_with two_step_doc)
           = (Inr (Some path, Some s, []), w1)
         \<and> nodes (snd (update_plan example_env 2 ''in_progress'' ''go'' ''plan.md''
                         (world_with two_step_doc))) path
             = Some (File (serialize_markdown s'))
         \<and> persisted_by (world_with two_step_doc)
             (snd (update_plan example_env 2 ''in_progress'' ''go'' ''plan.md''
                     (world_with two_step_doc))) path s'
         \<and> length (steps s') = length (steps s)
         \<and> in_progress_count (steps s') = 1
         \<and> (\<forall>k<length (steps s).
               i_status (steps s' ! k) =
                 (if int k + 1 = 2 then ''in_progress''
                  else if i_status (steps s ! k) = ''in_progress'' then ''pending''
                  else i_status (steps s ! k)))
         \<and> (\<forall>calls. in_progress_count (steps (apply_updates calls s')) \<le> 1))"
proof -
  have r: "fst (update_plan example_env 2 ''in_progress'' ''go'' ''plan.md'' (world_with two_step_doc))
     = Inr ''Updated step 2 to 'in_progress' in plan.md''"
    by code_simp
  have ok: "\<not> is_error ''Updated step 2 to 'in_progress' in plan.md''"
    by code_simp
  have run: "update_plan example_env 2 ''in_progress'' ''go'' ''plan.md'' (world_with two_step_doc)
     = (Inr ''Updated step 2 to 'in_progress' in plan.md'',
        snd (update_plan example_env 2 ''in_progress'' ''go'' ''plan.md'' (world_with two_step_doc)))"
    using r by (simp add: prod_eq_iff)
  from update_plan_in_progress[OF run ok] r ok show ?thesis by blast
qed

section \<open>C8: rejected updates\<close>

text \<open>
  C8. An \<open>update_plan\<close> call with a step number below 1 or with a status outside the
  valid set returns an error message and leaves the world as it was: it makes no access
  to the file system at all. A call whose step number exceeds the number of steps of the
  loaded plan returns an error message too, the files are as before and nothing was
  written.
\<close>

theorem update_plan_rejects:
  "(n < 1 \<or> st \<notin> VALID_STATUSES \<longrightarrow>
      (\<exists>msg. update_plan e n st nt pf w = (Inr msg, w) \<and> is_error msg))
   \<and> (read_existing_state e pf w = (Inr (Some path, Some s, []), w1) \<and> int (length (steps s)) < n \<longrightarrow>
      (\<exists>msg w'. update_plan e n st nt pf w = (Inr msg, w') \<and> is_error msg
         \<and> nodes w' = nodes w \<and> filter is_write (new_events w w') = []))"
proof (intro conjI impI)
  assume "n < 1 \<or> st \<notin> VALID_STATUSES"
  then show "\<exists>msg. update_plan e n st nt pf w = (Inr msg, w) \<and> is_error msg"
    by (auto simp: update_plan_def)
next
  assume a: "read_existing_state e pf w = (Inr (Some path, Some s, []), w1) \<and> int (length (steps s)) < n"
  then have rd: "read_existing_state e pf w = (Inr (Some path, Some s, []), w1)"
    and big: "int (length (steps s)) < n" by simp_all
  from read_existing_state_shape[OF rd] have same: "nodes w1 = nodes w"
    and quiet: "filter is_write (new_events w w1) = []" by simp_all
  have self: "filter is_write (new_events w w) = []" by (simp add: new_events_def)
  show "\<exists>msg w'. update_plan e n st nt pf w = (Inr msg, w') \<and> is_error msg
         \<and> nodes w' = nodes w \<and> filter is_write (new_events w w') = []"
  proof (cases "st \<in> VALID_STATUSES")
    case False
    then show ?thesis using self by (auto simp: update_plan_def)
  next
    case True
    from big have "1 \<le> n" by linarith
    with True rd big same quiet show ?thesis
      by (auto simp: update_plan_def)
  qed
qed

theorem update_plan_rejects_witness:
  "(0::int) < 1
   \<and> (\<exists>msg. update_plan example_env 0 ''pending'' [] ''plan.md'' (world_with two_step_doc)
              = (Inr msg, world_with two_step_doc) \<and> is_error msg)
   \<and> fst (read_existing_state example_env ''plan.md'' (world_with two_step_doc))
       = Inr (Some ''plan.md'',
              Some \<lparr>task = [], status = ''active'', created_at = ''T0'', updated_at = ''T0'',
                    percent_complete = None,
                    steps = [\<lparr>i_id = 1, i_description = ''a'', i_status = ''pending''\<rparr>,
                             \<lparr>i_id = 2, i_description = ''b'', i_status = ''pending''\<rparr>],
                    subgoals = [], progress_log = [], reflections = []\<rparr>, [])
   \<and> (\<exists>msg w'. update_plan example_env 3 ''completed'' [] ''plan.md'' (world_with two_step_doc)
                 = (Inr msg, w') \<and> is_error msg
         \<and> nodes w' = nodes (world_with two_step_doc)
         \<and> filter is_write (new_events (world_with two_step_doc) w') = [])"
proof -
  let ?s = "\<lparr>task = [], status = ''active'', created_at = ''T0'', updated_at = ''T0'',
                    percent_complete = None,
                    steps = [\<lparr>i_id = 1, i_description = ''a'', i_status = ''pending''\<rparr>,
                             \<lparr>i_id = 2, i_description = ''b'', i_status = ''pending''\<rparr>],
                    subgoals = [], progress_log = [], reflections = []\<rparr>"
  have r: "fst (read_existing_state example_env ''plan.md'' (world_with two_step_doc))
       = Inr (Some ''plan.md'', Some ?s, [])"
    by code_simp
  then have rd: "read_existing_state example_env ''plan.md'' (world_with two_step_doc)
       = (Inr (Some ''plan.md'', Some ?s, []),
          snd (read_existing_state example_env ''plan.md'' (world_with two_step_doc)))"
    by (simp add: prod_eq_iff)
  have big: "int (length (steps ?s)) < 3" by simp
  from update_plan_rejects[of 0 "''pending''" example_env "[]" "''plan.md''" "world_with two_step_doc"]
  have a: "\<exists>msg. update_plan example_env 0 ''pending'' [] ''plan.md'' (world_with two_step_doc)
              = (Inr msg, world_with two_step_doc) \<and> is_error msg"
    by simp
  from update_plan_rejects[of 3 "''completed''" example_env "[]" "''plan.md''" "world_with two_step_doc"
      "''plan.md''" ?s "snd (read_existing_state example_env ''plan.md'' (world_with two_step_doc))"]
    rd big
  have b: "\<exists>msg w'. update_plan example_env 3 ''completed'' [] ''plan.md'' (world_with two_step_doc)
                 = (Inr msg, w') \<and> is_error msg
         \<and> nodes w' = nodes (world_with two_step_doc)
         \<and> filter is_write (new_events (world_with two_step_doc) w') = []"
    by blast
  from a b r show ?thesis by simp
qed

section \<open>Progress and reflection calls\<close>

lemma maybe_cleanup_log:
  "maybe_cleanup_plan_file e path cl s w = (c, w') \<Longrightarrow>
     \<exists>evs. io_log w' = io_log w @ evs \<and> filter is_write evs = []"
  by (auto simp: maybe_cleanup_plan_file_def logged_def split: if_splits option.splits)

lemma loaded_not_dir:
  assumes "read_existing_state e pf w = (Inr (Some path, Some s, []), w1)"
  shows "nodes w1 path \<noteq> Some Dir"
  using read_existing_state_shape[OF assms] by auto

lemma track_progress_run:
  assumes rd: "read_existing_state e pf w = (Inr (Some path, Some s, []), w1)"
    and m: "strip m \<noteq> []"
    and p: "\<not> (case p of None \<Rightarrow> False | Some x \<Rightarrow> x < 0 \<or> x > 100)"
    and wok: "write_error e path = None"
  shows "track_progress e m p pf cp cl w =
     (let s' = track_progress_state (strip m) p cp (clock e (ticks w1)) s;
          w3 = w1\<lparr>ticks := Suc (ticks w1),
                  nodes := (nodes w1)(path \<mapsto> File (serialize_markdown s')),
                  io_log := io_log w1 @ [Ev_write path (serialize_markdown s')]\<rparr>
      in case maybe_cleanup_plan_file e path cl s' w3 of
           (Some cleanup_result, w4) \<Rightarrow> (Inr cleanup_result, w4)
         | (None, w4) \<Rightarrow>
             (Inr (''Logged progress in '' @ path @ '' (status='' @ status s' @ '', progress=''
                   @ show_percent (percent_complete s') @ ''%)''), w4))"
  using rd m p wok loaded_not_dir[OF rd]
  by (simp add: track_progress_def now_utc_iso_def write_state_ok Let_def startswith_def)

lemma reflect_on_plan_run:
  assumes rd: "read_existing_state e pf w = (Inr (Some path, Some s, []), w1)"
    and m: "strip sm \<noteq> []"
    and wok: "write_error e path = None"
  shows "reflect_on_plan e sm rk na pf fin cl w =
     (let s' = reflect_on_plan_state (strip sm) rk na fin (clock e (ticks w1)) s;
          w3 = w1\<lparr>ticks := Suc (ticks w1),
                  nodes := (nodes w1)(path \<mapsto> File (serialize_markdown s')),
                  io_log := io_log w1 @ [Ev_write path (serialize_markdown s')]\<rparr>
      in case maybe_cleanup_plan_file e path cl s' w3 of
           (Some cleanup_result, w4) \<Rightarrow> (Inr cleanup_result, w4)
         | (None, w4) \<Rightarrow>
             (Inr (''Recorded reflection in '' @ path @ '' (total reflections=''
                   @ show_nat (length (reflections s')) @ '')''), w4))"
  using rd m wok loaded_not_dir[OF rd]
  by (simp add: reflect_on_plan_def now_utc_iso_def write_state_ok Let_def startswith_def)

text \<open>What a call leaves once the new state \<open>s'\<close> is written and cleanup is decided.\<close>

lemma after_write_persisted:
  assumes rd: "read_existing_state e pf w = (Inr (Some path, Some s, []), w1)"
    and cu: "maybe_cleanup_plan_file e path cl s'
               (w1\<lparr>ticks := Suc (ticks w1),
                   nodes := (nodes w1)(path \<mapsto> File (serialize_markdown s')),
                   io_log := io_log w1 @ [Ev_write path (serialize_markdown s')]\<rparr>) = (c, w4)"
  shows "persisted_by w w4 path s'"
proof -
  from read_existing_state_log[OF rd] obtain evs where
    evs: "io_log w1 = io_log w @ evs" "filter is_write evs = []" by blast
  from maybe_cleanup_log[OF cu] obtain evs' where
    evs': "io_log w4 = io_log w1 @ [Ev_write path (serialize_markdown s')] @ evs'"
          "filter is_write evs' = []" by auto
  from evs evs' show ?thesis by (simp add: persisted_by_def new_events_def)
qed

lemma track_progress_success:
  assumes run: "track_progress e m p pf cp cl w = (Inr msg, w')" and ok: "\<not> is_error msg"
  shows "\<exists>path s w1.
           read_existing_state e pf w = (Inr (Some path, Some s, []), w1)
           \<and> strip m \<noteq> [] \<and> \<not> (case p of None \<Rightarrow> False | Some x \<Rightarrow> x < 0 \<or> x > 100)
           \<and> persisted_by w w' path (track_progress_state (strip m) p cp (clock e (ticks w1)) s)"
proof -
  obtain r w1 where rd: "read_existing_state e pf w = (r, w1)"
    by (cases "read_existing_state e pf w")
  have m: "strip m \<noteq> []"
  proof
    assume "strip m = []"
    then have "track_progress e m p pf cp cl w = (Inr ''Error: message must not be empty'', w)"
      by (simp add: track_progress_def)
    with run ok show False by auto
  qed
  have p: "\<not> (case p of None \<Rightarrow> False | Some x \<Rightarrow> x < 0 \<or> x > 100)"
  proof
    assume "case p of None \<Rightarrow> False | Some x \<Rightarrow> x < 0 \<or> x > 100"
    with m have "track_progress e m p pf cp cl w =
        (Inr ''Error: percent_complete must be between 0 and 100'', w)"
      by (simp add: track_progress_def)
    with run ok show False by auto
  qed
  from rd show ?thesis
  proof (cases rule: read_existing_state_cases)
    case (raised err)
    with rd m p run show ?thesis by (simp add: track_progress_def)
  next
    case (failed q err)
    with rd m p run ok show ?thesis by (auto simp: track_progress_def)
  next
    case (loaded path s content)
    with rd have rd': "read_existing_state e pf w = (Inr (Some path, Some s, []), w1)" by simp
    let ?s' = "track_progress_state (strip m) p cp (clock e (ticks w1)) s"
    obtain wr w3 where ws: "write_state e path ?s' (w1\<lparr>ticks := Suc (ticks w1)\<rparr>) = (wr, w3)"
      by (cases "write_state e path ?s' (w1\<lparr>ticks := Suc (ticks w1)\<rparr>)")
    have unf: "track_progress e m p pf cp cl w =
          (if is_error wr then (Inr wr, w3)
           else (case maybe_cleanup_plan_file e path cl ?s' w3 of
                   (Some cleanup_result, w4) \<Rightarrow> (Inr cleanup_result, w4)
                 | (None, w4) \<Rightarrow>
                     (Inr (''Logged progress in '' @ path @ '' (status='' @ status ?s'
                           @ '', progress='' @ show_percent (percent_complete ?s') @ ''%)''), w4)))"
      using rd' m p ws by (simp add: track_progress_def now_utc_iso_def is_error_def Let_def)
    have wr: "\<not> is_error wr" using unf run ok by (auto split: if_splits)
    with write_state_result[OF ws] have
      w3: "w3 = w1\<lparr>ticks := Suc (ticks w1),
                   nodes := (nodes w1)(path \<mapsto> File (serialize_markdown ?s')),
                   io_log := io_log w1 @ [Ev_write path (serialize_markdown ?s')]\<rparr>"
      by auto
    obtain c w4 where cu: "maybe_cleanup_plan_file e path cl ?s' w3 = (c, w4)"
      by (cases "maybe_cleanup_plan_file e path cl ?s' w3")
    with unf wr run have "w' = w4" by (auto split: option.splits)
    with after_write_persisted[OF rd' cu[unfolded w3]] rd' m p show ?thesis by blast
  qed
qed

lemma reflect_on_plan_success:
  assumes run: "reflect_on_plan e sm rk na pf fin cl w = (Inr msg, w')" and ok: "\<not> is_error msg"
  shows "\<exists>path s w1.
           read_existing_state e pf w = (Inr (Some path, Some s, []), w1)
           \<and> strip sm \<noteq> []
           \<and> persisted_by w w' path
               (reflect_on_plan_state (strip sm) rk na fin (clock e (ticks w1)) s)"
proof -
  obtain r w1 where rd: "read_existing_state e pf w = (r, w1)"
    by (cases "read_existing_state e pf w")
  have m: "strip sm \<noteq> []"
  proof
    assume "strip sm = []"
    then have "reflect_on_plan e sm rk na pf fin cl w = (Inr ''Error: summary must not be empty'', w)"
      by (simp add: reflect_on_plan_def)
    with run ok show False by auto
  qed
  from rd show ?thesis
  proof (cases rule: read_existing_state_cases)
    case (raised err)
    with rd m run show ?thesis by (simp add: reflect_on_plan_def)
  next
    case (failed q err)
    with rd m run ok show ?thesis by (auto simp: reflect_on_plan_def)
  next
    case (loaded path s content)
    with rd have rd': "read_existing_state e pf w = (Inr (Some path, Some s, []), w1)" by simp
    let ?s' = "reflect_on_plan_state (strip sm) rk na fin (clock e (ticks w1)) s"
    obtain wr w3 where ws: "write_state e path ?s' (w1\<lparr>ticks := Suc (ticks w1)\<rparr>) = (wr, w3)"
      by (cases "write_state e path ?s' (w1\<lparr>ticks := Suc (ticks w1)\<rparr>)")
    have unf: "reflect_on_plan e sm rk na pf fin cl w =
          (if is_error wr then (Inr wr, w3)
           else (case maybe_cleanup_plan_file e path cl ?s' w3 of
                   (Some cleanup_result, w4) \<Rightarrow> (Inr cleanup_result, w4)
                 | (None, w4) \<Rightarrow>
                     (Inr (''Recorded reflection in '' @ path @ '' (total reflections=''
                           @ show_nat (length (reflections ?s')) @ '')''), w4)))"
      using rd' m ws by (simp add: reflect_on_plan_def now_utc_iso_def is_error_def Let_def)
    have wr: "\<not> is_error wr" using unf run ok by (auto split: if_splits)
    with write_state_result[OF ws] have
      w3: "w3 = w1\<lparr>ticks := Suc (ticks w1),
                   nodes := (nodes w1)(path \<mapsto> File (serialize_markdown ?s')),
                   io_log := io_log w1 @ [Ev_write path (serialize_markdown ?s')]\<rparr>"
      by auto
    obtain c w4 where cu: "maybe_cleanup_plan_file e path cl ?s' w3 = (c, w4)"
      by (cases "maybe_cleanup_plan_file e path cl ?s' w3")
    with unf wr run have "w' = w4" by (auto split: option.splits)
    with after_write_persisted[OF rd' cu[unfolded w3]] rd' m show ?thesis by blast
  qed
qed

lemma persisted_by_unique:
  "persisted_by w w' path s \<Longrightarrow> persisted_by w w' path' s' \<Longrightarrow>
     path' = path \<and> serialize_markdown s' = serialize_markdown s"
  by (simp add: persisted_by_def)

lemma percent_recompute:
  "percent_complete (recompute_percent_from_steps s) = Some (PInt (step_percent (steps s)))"
  by (simp add: recompute_percent_from_steps_def step_percent_def completed_count_def Let_def)

lemma percent_track_explicit:
  "p \<noteq> 100 \<Longrightarrow>
   percent_complete (track_progress_state note (Some p) False ts s) = Some (PInt p)"
  by (simp add: track_progress_state_def Let_def)


lemma percent_reflect:
  "percent_complete (reflect_on_plan_state sm rk na False ts s) = Some (PInt (step_percent (steps s)))"
  by (simp add: reflect_on_plan_state_def Let_def recompute_percent_from_steps_def step_percent_def
      completed_count_def)

lemma not_error_other [simp]: "c \<noteq> CHR ''E'' \<Longrightarrow> \<not> is_error (c # m)"
  by (simp add: is_error_def startswith_def)

lemma cleanup_after_write:
  assumes cu: "maybe_cleanup_plan_file e path True s' w3 = (c, w4)"
    and nd: "nodes w3 path = Some (File (serialize_markdown s'))"
  shows "\<exists>msg. c = Some msg \<and> cleanup_outcome e path s' (Inr msg) w4"
proof (cases "status s' = ''completed''")
  case False
  with cu nd show ?thesis
    by (auto simp: maybe_cleanup_plan_file_def cleanup_outcome_def)
next
  case True
  show ?thesis
  proof (cases "unlink_error e path")
    case None
    with True cu nd show ?thesis
      by (auto simp: maybe_cleanup_plan_file_def cleanup_outcome_def logged_def)
  next
    case (Some err)
    with True cu nd show ?thesis
      by (auto simp: maybe_cleanup_plan_file_def cleanup_outcome_def logged_def startswith_def)
  qed
qed

section \<open>C6: cleanup\<close>

text \<open>
  C6. A \<open>track_progress\<close> or \<open>reflect_on_plan\<close> call with \<open>cleanup_plan_file\<close> set that
  persists the new state \<open>s'\<close> ends in one of three ways and no other: when the status of
  \<open>s'\<close> is not completed, an error is returned and the file stays, holding \<open>s'\<close>; when it
  is completed and the deletion succeeds, the file is gone; when it is completed and the
  deletion fails, a warning that is not an error is returned and the file stays, holding
  the completed state.
\<close>

theorem cleanup_outcomes:
  assumes rd: "read_existing_state e pf w = (Inr (Some path, Some s, []), w1)"
    and wok: "write_error e path = None"
  shows "(strip m \<noteq> [] \<and> \<not> (case p of None \<Rightarrow> False | Some x \<Rightarrow> x < 0 \<or> x > 100)
            \<and> track_progress e m p pf cp True w = (r, w') \<longrightarrow>
          persisted_by w w' path (track_progress_state (strip m) p cp (clock e (ticks w1)) s)
          \<and> cleanup_outcome e path
               (track_progress_state (strip m) p cp (clock e (ticks w1)) s) r w')
       \<and> (strip sm \<noteq> [] \<and> reflect_on_plan e sm rk na pf fin True w = (r2, w2) \<longrightarrow>
          persisted_by w w2 path (reflect_on_plan_state (strip sm) rk na fin (clock e (ticks w1)) s)
          \<and> cleanup_outcome e path
               (reflect_on_plan_state (strip sm) rk na fin (clock e (ticks w1)) s) r2 w2)"
proof (intro conjI impI)
  let ?s' = "track_progress_state (strip m) p cp (clock e (ticks w1)) s"
  let ?w3 = "w1\<lparr>ticks := Suc (ticks w1),
                 nodes := (nodes w1)(path \<mapsto> File (serialize_markdown ?s')),
                 io_log := io_log w1 @ [Ev_write path (serialize_markdown ?s')]\<rparr>"
  assume a: "strip m \<noteq> [] \<and> \<not> (case p of None \<Rightarrow> False | Some x \<Rightarrow> x < 0 \<or> x > 100)
            \<and> track_progress e m p pf cp True w = (r, w')"
  obtain c w4 where cu: "maybe_cleanup_plan_file e path True ?s' ?w3 = (c, w4)"
    by (cases "maybe_cleanup_plan_file e path True ?s' ?w3")
  from cleanup_after_write[OF cu] obtain msg where
    c: "c = Some msg" and out: "cleanup_outcome e path ?s' (Inr msg) w4" by auto
  from a track_progress_run[OF rd _ _ wok, of m p cp True] cu c
  have "r = Inr msg" "w' = w4" by (simp_all add: Let_def)
  with out after_write_persisted[OF rd cu]
  show "persisted_by w w' path ?s'" and "cleanup_outcome e path ?s' r w'" by simp_all
next
  let ?s' = "reflect_on_plan_state (strip sm) rk na fin (clock e (ticks w1)) s"
  let ?w3 = "w1\<lparr>ticks := Suc (ticks w1),
                 nodes := (nodes w1)(path \<mapsto> File (serialize_markdown ?s')),
                 io_log := io_log w1 @ [Ev_write path (serialize_markdown ?s')]\<rparr>"
  assume a: "strip sm \<noteq> [] \<and> reflect_on_plan e sm rk na pf fin True w = (r2, w2)"
  obtain c w4 where cu: "maybe_cleanup_plan_file e path True ?s' ?w3 = (c, w4)"
    by (cases "maybe_cleanup_plan_file e path True ?s' ?w3")
  from cleanup_after_write[OF cu] obtain msg where
    c: "c = Some msg" and out: "cleanup_outcome e path ?s' (Inr msg) w4" by auto
  from a reflect_on_plan_run[OF rd _ wok, of sm rk na fin True] cu c
  have "r2 = Inr msg" "w2 = w4" by (simp_all add: Let_def)
  with out after_write_persisted[OF rd cu]
  show "persisted_by w w2 path ?s'" and "cleanup_outcome e path ?s' r2 w2" by simp_all
qed

lemma fst_read_two_step_doc:
  "fst (read_existing_state example_env ''plan.md'' (world_with two_step_doc))
     = Inr (Some ''plan.md'', Some two_step_state, [])"
  by code_simp

lemma read_two_step_doc:
  "read_existing_state example_env ''plan.md'' (world_with two_step_doc)
     = (Inr (Some ''plan.md'', Some two_step_state, []),
        snd (read_existing_state example_env ''plan.md'' (world_with two_step_doc)))"
  using fst_read_two_step_doc by (simp add: prod_eq_iff)



lemma example_env_simps [simp]:
  "write_error example_env p = None" "unlink_error example_env p = None"
  "read_error example_env p = None" "resolve example_env p = Inr p"
  by (simp_all add: example_env_def)

theorem cleanup_outcomes_witness:
  "fst (read_existing_state example_env ''plan.md'' (world_with two_step_doc))
     = Inr (Some ''plan.md'', Some two_step_state, [])
   \<and> write_error example_env ''plan.md'' = None
   \<and> strip ''done'' \<noteq> []
   \<and> persisted_by (world_with two_step_doc)
        (snd (track_progress example_env ''done'' None ''plan.md'' True True (world_with two_step_doc)))
        ''plan.md''
        (track_progress_state (strip ''done'') None True
           (clock example_env
              (ticks (snd (read_existing_state example_env ''plan.md'' (world_with two_step_doc)))))
           two_step_state)
   \<and> cleanup_outcome example_env ''plan.md''
        (track_progress_state (strip ''done'') None True
           (clock example_env
              (ticks (snd (read_existing_state example_env ''plan.md'' (world_with two_step_doc)))))
           two_step_state)
        (fst (track_progress example_env ''done'' None ''plan.md'' True True (world_with two_step_doc)))
        (snd (track_progress example_env ''done'' None ''plan.md'' True True (world_with two_step_doc)))
   \<and> strip ''so far'' \<noteq> []
   \<and> persisted_by (world_with two_step_doc)
        (snd (reflect_on_plan example_env ''so far'' None None ''plan.md'' False True
                (world_with two_step_doc)))
        ''plan.md''
        (reflect_on_plan_state (strip ''so far'') None None False
           (clock example_env
              (ticks (snd (read_existing_state example_env ''plan.md'' (world_with two_step_doc)))))
           two_step_state)
   \<and> cleanup_outcome example_env ''plan.md''
        (reflect_on_plan_state (strip ''so far'') None None False
           (clock example_env
              (ticks (snd (read_existing_state example_env ''plan.md'' (world_with two_step_doc)))))
           two_step_state)
        (fst (reflect_on_plan example_env ''so far'' None None ''plan.md'' False True
                (world_with two_step_doc)))
        (snd (reflect_on_plan example_env ''so far'' None None ''plan.md'' False True
                (world_with two_step_doc)))"
proof -
  have s1: "strip ''done'' \<noteq> []" by code_simp
  have s2: "strip ''so far'' \<noteq> []" by code_simp
  have wok: "write_error example_env ''plan.md'' = None" by simp
  from cleanup_outcomes[OF read_two_step_doc wok,
      of "''done''" None True
         "fst (track_progress example_env ''done'' None ''plan.md'' True True (world_with two_step_doc))"
         "snd (track_progress example_env ''done'' None ''plan.md'' True True (world_with two_step_doc))"
         "''so far''" None None False
         "fst (reflect_on_plan example_env ''so far'' None None ''plan.md'' False True (world_with two_step_doc))"
         "snd (reflect_on_plan example_env ''so far'' None None ''plan.md'' False True (world_with two_step_doc))"]
    s1 s2 fst_read_two_step_doc
  show ?thesis by simp
qed
section \<open>C9: explicit and recomputed percentages\<close>

text \<open>
  C9. A successful \<open>track_progress\<close> call with an explicit percentage \<open>p\<close> between 0 and 99
  and without \<open>complete_plan\<close> persists \<open>p\<close> itself as \<open>percent_complete\<close>; a successful
  \<open>reflect_on_plan\<close> call without \<open>finalize\<close> persists the percentage of the completed
  steps of the loaded plan, whatever percentage was stored.
\<close>

theorem explicit_percent_retained:
  "(track_progress e m (Some p) pf False cl w = (Inr msg, w') \<and> \<not> is_error msg
      \<and> 0 \<le> p \<and> p \<le> 99 \<longrightarrow>
      (\<exists>path s w1 s'. read_existing_state e pf w = (Inr (Some path, Some s, []), w1)
         \<and> persisted_by w w' path s' \<and> percent_complete s' = Some (PInt p)))
   \<and> (reflect_on_plan e sm rk na pf False cl2 w = (Inr msg2, w2) \<and> \<not> is_error msg2 \<longrightarrow>
      (\<exists>path s w1 s'. read_existing_state e pf w = (Inr (Some path, Some s, []), w1)
         \<and> persisted_by w w2 path s'
         \<and> percent_complete s' = Some (PInt (step_percent (steps s)))))"
proof (intro conjI impI)
  assume a: "track_progress e m (Some p) pf False cl w = (Inr msg, w') \<and> \<not> is_error msg
      \<and> 0 \<le> p \<and> p \<le> 99"
  then have run: "track_progress e m (Some p) pf False cl w = (Inr msg, w')"
    and ok: "\<not> is_error msg" and p: "p \<noteq> 100" by auto
  from track_progress_success[OF run ok] obtain path s w1 where
    rd: "read_existing_state e pf w = (Inr (Some path, Some s, []), w1)"
    and ps: "persisted_by w w' path
               (track_progress_state (strip m) (Some p) False (clock e (ticks w1)) s)"
    by blast
  from rd ps percent_track_explicit[OF p]
  show "\<exists>path s w1 s'. read_existing_state e pf w = (Inr (Some path, Some s, []), w1)
         \<and> persisted_by w w' path s' \<and> percent_complete s' = Some (PInt p)"
    by blast
next
  assume a: "reflect_on_plan e sm rk na pf False cl2 w = (Inr msg2, w2) \<and> \<not> is_error msg2"
  then have run: "reflect_on_plan e sm rk na pf False cl2 w = (Inr msg2, w2)"
    and ok: "\<not> is_error msg2" by auto
  from reflect_on_plan_success[OF run ok] obtain path s w1 where
    rd: "read_existing_state e pf w = (Inr (Some path, Some s, []), w1)"
    and ps: "persisted_by w w2 path
               (reflect_on_plan_state (strip sm) rk na False (clock e (ticks w1)) s)"
    by blast
  from rd ps percent_reflect
  show "\<exists>path s w1 s'. read_existing_state e pf w = (Inr (Some path, Some s, []), w1)
         \<and> persisted_by w w2 path s'
         \<and> percent_complete s' = Some (PInt (step_percent (steps s)))"
    by blast
qed

theorem explicit_percent_retained_witness:
  "fst (track_progress example_env ''half'' (Some 50) ''plan.md'' False False
          (world_with two_step_doc))
     = Inr ''Logged progress in plan.md (status=active, progress=50%)''
   \<and> \<not> is_error ''Logged progress in plan.md (status=active, progress=50%)''
   \<and> (0::int) \<le> 50 \<and> (50::int) \<le> 99
   \<and> (\<exists>path s w1 s'.
         read_existing_state example_env ''plan.md'' (world_with two_step_doc)
           = (Inr (Some path, Some s, []), w1)
         \<and> persisted_by (world_with two_step_doc)
              (snd (track_progress example_env ''half'' (Some 50) ''plan.md'' False False
                      (world_with two_step_doc))) path s'
         \<and> percent_complete s' = Some (PInt 50))
   \<and> fst (reflect_on_plan example_env ''so far'' None None ''plan.md'' False False
            (world_with two_step_doc))
     = Inr ''Recorded reflection in plan.md (total reflections=1)''
   \<and> \<not> is_error ''Recorded reflection in plan.md (total reflections=1)''
   \<and> (\<exists>path s w1 s'.
         read_existing_state example_env ''plan.md'' (world_with two_step_doc)
           = (Inr (Some path, Some s, []), w1)
         \<and> persisted_by (world_with two_step_doc)
              (snd (reflect_on_plan example_env ''so far'' None None ''plan.md'' False False
                      (world_with two_step_doc))) path s'
         \<and> percent_complete s' = Some (PInt (step_percent (steps s))))"
proof -
  have r1: "fst (track_progress example_env ''half'' (Some 50) ''plan.md'' False False
          (world_with two_step_doc))
     = Inr ''Logged progress in plan.md (status=active, progress=50%)''"
    by code_simp
  have ok1: "\<not> is_error ''Logged progress in plan.md (status=active, progress=50%)''"
    by code_simp
  have r2: "fst (reflect_on_plan example_env ''so far'' None None ''plan.md'' False False
            (world_with two_step_doc))
     = Inr ''Recorded reflection in plan.md (total reflections=1)''"
    by code_simp
  have ok2: "\<not> is_error ''Recorded reflection in plan.md (total reflections=1)''"
    by code_simp
  have run1: "track_progress example_env ''half'' (Some 50) ''plan.md'' False False
          (world_with two_step_doc)
     = (Inr ''Logged progress in plan.md (status=active, progress=50%)'',
        snd (track_progress example_env ''half'' (Some 50) ''plan.md'' False False
          (world_with two_step_doc)))"
    using r1 by (simp add: prod_eq_iff)
  have run2: "reflect_on_plan example_env ''so far'' None None ''plan.md'' False False
            (world_with two_step_doc)
     = (Inr ''Recorded reflection in plan.md (total reflections=1)'',
        snd (reflect_on_plan example_env ''so far'' None None ''plan.md'' False False
            (world_with two_step_doc)))"
    using r2 by (simp add: prod_eq_iff)
  have fifty: "(0::int) \<le> 50 \<and> (50::int) \<le> 99" by simp
  from explicit_percent_retained[of example_env "''half''" 50 "''plan.md''" False
      "world_with two_step_doc" "''Logged progress in plan.md (status=active, progress=50%)''"
      "snd (track_progress example_env ''half'' (Some 50) ''plan.md'' False False
          (world_with two_step_doc))"
      "''so far''" None None False "''Recorded reflection in plan.md (total reflections=1)''"
      "snd (reflect_on_plan example_env ''so far'' None None ''plan.md'' False False
            (world_with two_step_doc))"]
    run1 run2 ok1 ok2 fifty
  have "(\<exists>path s w1 s'.
         read_existing_state example_env ''plan.md'' (world_with two_step_doc)
           = (Inr (Some path, Some s, []), w1)
         \<and> persisted_by (world_with two_step_doc)
              (snd (track_progress example_env ''half'' (Some 50) ''plan.md'' False False
                      (world_with two_step_doc))) path s'
         \<and> percent_complete s' = Some (PInt 50))
     \<and> (\<exists>path s w1 s'.
         read_existing_state example_env ''plan.md'' (world_with two_step_doc)
           = (Inr (Some path, Some s, []), w1)
         \<and> persisted_by (world_with two_step_doc)
              (snd (reflect_on_plan example_env ''so far'' None None ''plan.md'' False False
                      (world_with two_step_doc))) path s'
         \<and> percent_complete s' = Some (PInt (step_percent (steps s))))"
    by blast
  with r1 ok1 r2 ok2 show ?thesis by simp
qed

section \<open>C10: a plan without steps\<close>








section \<open>C1: a completed plan\<close>

lemma all_completed_mark [simp]: "all_completed (mark_all_completed items)"
  by (simp add: all_completed_def mark_all_completed_def list_all_iff)

lemma reachable_example_state: "reachable example_state"
proof -
  have t: "strip ''task'' = ''task''" and t': "''task'' \<noteq> []" by code_simp+
  have g: "normalize_text_items (Some [''step'']) = [''step'']" by code_simp
  have "reachable (create_state ''task'' (if [''step''] = [] then decompose_task ''task'' 6 else [''step'']) ''t0'')"
    by (rule reachable.created[where tsk = "''task''" and stps = "Some [''step'']" and given = "[''step'']"])
       (simp_all add: t g)
  then have r0: "reachable (create_state ''task'' [''step''] ''t0'')" by simp
  have n: "normalize_text_items (Some [''goal'']) = [''goal'']" by code_simp
  have r1: "reachable (set_subgoals_state [''goal''] True ''t1'' (create_state ''task'' [''step''] ''t0''))"
    by (rule reachable.subgoals_set[OF r0, where subs = "[''goal'']"]) (simp_all add: n)
  have l: "steps (set_subgoals_state [''goal''] True ''t1'' (create_state ''task'' [''step''] ''t0''))
             = [\<lparr>i_id = 1, i_description = ''step'', i_status = ''in_progress''\<rparr>]"
    by code_simp
  have "reachable (update_plan_state 1 ''completed'' [] ''t2''
          (set_subgoals_state [''goal''] True ''t1'' (create_state ''task'' [''step''] ''t0'')))"
    by (rule reachable.updated[OF r1]) (simp_all add: l VALID_STATUSES_def)
  then show ?thesis by (simp add: example_state_def)
qed

text \<open>
  C1 as stated fails: after \<open>create_plan\<close> with one step, \<open>set_subgoals\<close> with one goal and
  \<open>update_plan\<close> completing the step, the status is completed while the subgoal is still
  pending.
\<close>

theorem completed_with_pending_subgoal:
  "reachable example_state \<and> status example_state = ''completed''
   \<and> map i_status (subgoals example_state) = [''pending'']"
proof -
  have "status example_state = ''completed''" by code_simp
  moreover have "map i_status (subgoals example_state) = [''pending'']" by code_simp
  ultimately show ?thesis using reachable_example_state by simp
qed

text \<open>
  C1, amended. In every plan state that a sequence of the operations produces, starting
  from \<open>create_plan\<close>, a completed status implies that every step is completed.
\<close>

theorem completed_implies_steps_completed:
  assumes "reachable s" and "status s = ''completed''"
  shows "all_completed (steps s)"
  using assms
proof (induction rule: reachable.induct)
  case (created task_text tsk given stps normalized_steps ts)
  then show ?case by (simp add: create_state_def)
next
  case (updated s n st nt ts)
  from updated.prems show ?case
    by (simp add: status_update_plan_state split: if_splits)
next
  case (subgoals_set s normalized_subgoals subs replace ts)
  then show ?case by (simp add: set_subgoals_state_def Let_def)
next
  case (progress_tracked s message percent complete_plan ts)
  from progress_tracked.prems show ?case
    by (auto simp: track_progress_state_def Let_def recompute_percent_from_steps_def
        split: if_splits option.splits)
next
  case (reflected s summary risks next_actions finalize ts)
  then show ?case
    by (auto simp: reflect_on_plan_state_def Let_def recompute_percent_from_steps_def
        split: if_splits)
qed

theorem completed_implies_steps_completed_witness:
  "reachable example_state \<and> status example_state = ''completed''
   \<and> all_completed (steps example_state)"
proof -
  have c: "status example_state = ''completed''" by code_simp
  from completed_implies_steps_completed[OF reachable_example_state c] c reachable_example_state
  show ?thesis by simp
qed
section \<open>C7: decomposing a task\<close>

lemma normalize_loop_invariant:
  assumes "distinct result" "set result = seen" "[] \<notin> seen"
  shows "distinct (normalize_loop xs result seen) \<and> [] \<notin> set (normalize_loop xs result seen)"
  using assms
proof (induction xs arbitrary: result seen)
  case Nil
  then show ?case by simp
next
  case (Cons raw rest)
  show ?case
  proof (cases "strip raw = [] \<or> strip raw \<in> seen")
    case True
    with Cons.IH[OF Cons.prems] show ?thesis by (simp add: Let_def)
  next
    case False
    with Cons.prems have "distinct (result @ [strip raw])"
      "set (result @ [strip raw]) = insert (strip raw) seen" "[] \<notin> insert (strip raw) seen"
      by auto
    from Cons.IH[OF this] False show ?thesis by (simp add: Let_def)
  qed
qed

lemma normalize_text_items_distinct:
  "distinct (normalize_text_items values) \<and> [] \<notin> set (normalize_text_items values)"
  using normalize_loop_invariant[of "[]" "{}"]
  by (simp add: normalize_text_items_def split: option.splits)

lemma unique_candidates_distinct:
  "distinct (unique_candidates n) \<and> [] \<notin> set (unique_candidates n)"
  unfolding unique_candidates_def Let_def by (rule normalize_text_items_distinct)

lemma fallback_steps_distinct:
  "distinct (fallback_steps n) \<and> [] \<notin> set (fallback_steps n) \<and> length (fallback_steps n) = 5
   \<and> (\<forall>x\<in>set (fallback_steps n). \<not> startswith x ''Error:'')"
  by (simp add: fallback_steps_def startswith_def)

text \<open>
  C7 as stated fails: with \<open>max_steps = 1\<close> the result has one string, not two; and a
  fragment of the task that starts with \<open>Error:\<close> is returned as it is.
\<close>

theorem decompose_task_short_or_error:
  "normalized_task ''a. b'' \<noteq> [] \<and> decompose_task ''a. b'' 1 = [''a'']
   \<and> normalized_task ''Error: a. b'' \<noteq> []
   \<and> decompose_task ''Error: a. b'' 4 = [''Error: a'', ''b'']
   \<and> startswith ''Error: a'' ''Error:''"
  by code_simp

text \<open>
  C7, amended. For a task that is not blank after whitespace normalisation and
  \<open>max_steps > 0\<close>, \<open>decompose_task\<close> returns at most \<open>max_steps\<close> strings, and at least two
  whenever \<open>max_steps\<close> allows two; they are pairwise distinct and not empty. They are the
  first \<open>max_steps\<close> of the unique fragments when there are two or more of these, and
  otherwise the first \<open>max_steps\<close> of the five fallback lines, none of which starts with
  \<open>Error:\<close>.
\<close>

theorem decompose_task_shape:
  assumes "0 < max_steps" and "normalized_task tsk \<noteq> []"
  shows "min 2 (nat max_steps) \<le> length (decompose_task tsk max_steps)
     \<and> length (decompose_task tsk max_steps) \<le> nat max_steps
     \<and> distinct (decompose_task tsk max_steps)
     \<and> [] \<notin> set (decompose_task tsk max_steps)
     \<and> (if 2 \<le> length (unique_candidates (normalized_task tsk))
         then decompose_task tsk max_steps
                = take (nat max_steps) (unique_candidates (normalized_task tsk))
         else decompose_task tsk max_steps
                = take (nat max_steps) (fallback_steps (normalized_task tsk))
              \<and> list_all (\<lambda>x. \<not> startswith x ''Error:'') (decompose_task tsk max_steps))"
proof (cases "2 \<le> length (unique_candidates (normalized_task tsk))")
  case True
  with assms have eq: "decompose_task tsk max_steps
      = take (nat max_steps) (unique_candidates (normalized_task tsk))"
    by (simp add: decompose_task_def)
  have "[] \<notin> set (take (nat max_steps) (unique_candidates (normalized_task tsk)))"
    using unique_candidates_distinct[of "normalized_task tsk"] in_set_takeD by fastforce
  with True eq unique_candidates_distinct[of "normalized_task tsk"] show ?thesis
    by (simp add: min_def)
next
  case False
  with assms have eq: "decompose_task tsk max_steps
      = take (nat max_steps) (fallback_steps (normalized_task tsk))"
    by (simp add: decompose_task_def)
  have a: "[] \<notin> set (take (nat max_steps) (fallback_steps (normalized_task tsk)))"
    using fallback_steps_distinct[of "normalized_task tsk"] in_set_takeD by fastforce
  have b: "list_all (\<lambda>x. \<not> startswith x ''Error:'')
             (take (nat max_steps) (fallback_steps (normalized_task tsk)))"
    using fallback_steps_distinct[of "normalized_task tsk"] in_set_takeD
    unfolding list_all_iff by fast
  from False eq a b fallback_steps_distinct[of "normalized_task tsk"] show ?thesis
    by (simp add: min_def)
qed

theorem decompose_task_shape_witness:
  "(0::int) < 4
   \<and> normalized_task ''Inspect code then implement plan tools then run tests'' \<noteq> []
   \<and> min 2 (nat 4) \<le> length (decompose_task ''Inspect code then implement plan tools then run tests'' 4)
   \<and> length (decompose_task ''Inspect code then implement plan tools then run tests'' 4) \<le> nat 4
   \<and> distinct (decompose_task ''Inspect code then implement plan tools then run tests'' 4)
   \<and> [] \<notin> set (decompose_task ''Inspect code then implement plan tools then run tests'' 4)
   \<and> decompose_task ''Inspect code then implement plan tools then run tests'' 4
       = [''Inspect code'', ''implement plan tools'', ''run tests'']"
proof -
  have n: "normalized_task ''Inspect code then implement plan tools then run tests'' \<noteq> []"
    by code_simp
  have v: "decompose_task ''Inspect code then implement plan tools then run tests'' 4
       = [''Inspect code'', ''implement plan tools'', ''run tests'']"
    by code_simp
  have p: "(0::int) < 4" by simp
  from decompose_task_shape[OF p n] n v show ?thesis by simp
qed

section \<open>The rounding of the percentage\<close>

lemma pow2_powi: "pow2 e = 2 powi e"
proof (cases "0 \<le> e")
  case True
  then show ?thesis by (simp add: pow2_def power_int_def)
next
  case False
  have "inverse (2::rat) ^ nat (- e) = 1 / 2 ^ nat (- e)"
    by (metis inverse_eq_divide power_inverse)
  with False show ?thesis by (simp add: pow2_def power_int_def)
qed

lemma pow2_pos [simp]: "0 < pow2 e"
  by (simp add: pow2_powi)

lemma pow2_add: "pow2 (a + b) = pow2 a * pow2 b"
  by (simp add: pow2_powi power_int_add)

lemma pow2_diff: "pow2 (a - b) = pow2 a / pow2 b"
  by (simp add: pow2_powi power_int_diff)

lemma round_half_even_error: "\<bar>of_int (round_half_even x) - x\<bar> \<le> 1 / 2"
proof -
  define d where "d = x - of_int \<lfloor>x\<rfloor>"
  have d: "0 \<le> d" "d < 1" unfolding d_def by linarith+
  have x: "x = of_int \<lfloor>x\<rfloor> + d" by (simp add: d_def)
  have r: "round_half_even x =
     (if d < 1 / 2 then \<lfloor>x\<rfloor> else if 1 / 2 < d then \<lfloor>x\<rfloor> + 1
      else if even \<lfloor>x\<rfloor> then \<lfloor>x\<rfloor> else \<lfloor>x\<rfloor> + 1)"
    by (simp add: round_half_even_def Let_def d_def)
  consider "round_half_even x = \<lfloor>x\<rfloor>" "d \<le> 1 / 2"
    | "round_half_even x = \<lfloor>x\<rfloor> + 1" "1 / 2 \<le> d"
    unfolding r by (cases "d < 1 / 2"; cases "1 / 2 < d"; cases "even \<lfloor>x\<rfloor>") auto
  then show ?thesis
  proof cases
    case 1
    then have "of_int (round_half_even x) - x = - d" using x by simp
    with 1 d show ?thesis by simp
  next
    case 2
    then have "of_int (round_half_even x) - x = 1 - d" using x by simp
    with 2 d show ?thesis by simp
  qed
qed

lemma bitlen_powi_bounds:
  assumes "0 < a"
  shows "(2::rat) powi (bitlen a - 1) \<le> of_int a" "of_int a < (2::rat) powi (bitlen a)"
proof -
  from assms have ge: "1 \<le> bitlen a" by (auto simp: bitlen_alt_def)
  from bitlen_bounds[OF assms] have
    lo: "2 ^ nat (bitlen a - 1) \<le> a" and hi: "a < 2 ^ nat (bitlen a)" by simp_all
  from lo have "(of_int (2 ^ nat (bitlen a - 1)) :: rat) \<le> of_int a"
    by (simp only: of_int_le_iff)
  then show "(2::rat) powi (bitlen a - 1) \<le> of_int a"
    using ge by (simp add: power_int_def)
  from hi have "(of_int a :: rat) < of_int (2 ^ nat (bitlen a))"
    by (simp only: of_int_less_iff)
  then show "of_int a < (2::rat) powi (bitlen a)"
    using ge by (simp add: power_int_def)
qed

lemma binade_bounds:
  assumes "0 < x"
  shows "pow2 (binade x) \<le> x \<and> x < pow2 (binade x + 1)"
proof -
  obtain a b where q: "quotient_of x = (a, b)" by (cases "quotient_of x")
  then have b: "0 < b" by (rule quotient_of_denom_pos)
  from quotient_of_div[OF q] have x: "x = of_int a / of_int b" .
  with assms b have a: "0 < a" by (simp add: zero_less_divide_iff)
  let ?d = "bitlen a - bitlen b"
  have up: "x < pow2 (?d + 1)"
  proof -
    have "x < 2 powi (bitlen a) / of_int b"
      unfolding x using bitlen_powi_bounds(2)[OF a] b by (simp add: divide_strict_right_mono)
    also have "\<dots> \<le> 2 powi (bitlen a) / 2 powi (bitlen b - 1)"
    proof (rule divide_left_mono)
      show "(2::rat) powi (bitlen b - 1) \<le> of_int b" by (rule bitlen_powi_bounds(1)[OF b])
      show "(0::rat) \<le> 2 powi bitlen a" by simp
      show "0 < rat_of_int b * 2 powi (bitlen b - 1)" using b by simp
    qed
    also have "\<dots> = 2 powi (bitlen a - (bitlen b - 1))"
      by (simp add: power_int_diff)
    finally show ?thesis by (simp add: pow2_powi algebra_simps)
  qed
  have low: "pow2 (?d - 1) \<le> x"
  proof -
    have "(2::rat) powi (bitlen a - 1 - bitlen b) = 2 powi (bitlen a - 1) / 2 powi (bitlen b)"
      by (simp add: power_int_diff)
    also have "\<dots> \<le> of_int a / 2 powi (bitlen b)"
      using bitlen_powi_bounds(1)[OF a] by (simp add: divide_right_mono)
    also have "\<dots> \<le> of_int a / of_int b"
    proof (rule divide_left_mono)
      show "rat_of_int b \<le> 2 powi bitlen b" using bitlen_powi_bounds(2)[OF b] by simp
      show "0 \<le> rat_of_int a" using a by simp
      show "0 < (2::rat) powi bitlen b * rat_of_int b" using b by simp
    qed
    finally show ?thesis by (simp add: pow2_powi x algebra_simps)
  qed
  show ?thesis
  proof (cases "pow2 ?d \<le> x")
    case True
    with q up show ?thesis by (simp add: binade_def)
  next
    case False
    with q low show ?thesis by (simp add: binade_def)
  qed
qed

lemma fl64_error:
  assumes "0 < x"
  shows "\<bar>fl64 x - x\<bar> \<le> x / 2 ^ 53"
proof -
  let ?u = "pow2 (binade x - 52)"
  have u: "0 < ?u" by simp
  have u0: "?u \<noteq> 0" using u by (metis less_irrefl)
  have "fl64 x = of_int (round_half_even (x / ?u)) * ?u"
    using assms by (simp add: fl64_def Let_def)
  moreover have "x = x / ?u * ?u" using u0 by simp
  ultimately have "fl64 x - x = (of_int (round_half_even (x / ?u)) - x / ?u) * ?u"
    by (metis left_diff_distrib)
  then have "\<bar>fl64 x - x\<bar> = \<bar>of_int (round_half_even (x / ?u)) - x / ?u\<bar> * \<bar>?u\<bar>"
    by (simp only: abs_mult)
  also have "\<dots> = \<bar>of_int (round_half_even (x / ?u)) - x / ?u\<bar> * ?u"
    using u by (simp only: abs_of_pos)
  also have "\<dots> \<le> 1 / 2 * ?u"
    by (rule mult_right_mono[OF round_half_even_error less_imp_le[OF u]])
  also have "\<dots> = pow2 (binade x) / 2 ^ 53"
  proof -
    have "pow2 52 = 2 ^ 52" by (simp add: pow2_def[of 52])
    with pow2_diff[of "binade x" 52] have "?u = pow2 (binade x) / 2 ^ 52" by simp
    then show ?thesis by simp
  qed
  also have "\<dots> \<le> x / 2 ^ 53"
    using binade_bounds[OF assms] by (simp add: divide_right_mono)
  finally show ?thesis .
qed

lemma fl64_zero [simp]: "fl64 0 = 0"
  by (simp add: fl64_def)

lemma round_half_even_zero [simp]: "round_half_even 0 = 0"
  by (simp add: round_half_even_def)

lemma percent_of_nearest:
  assumes n: "0 < n" and c: "c \<le> n" and bound: "n \<le> 2 ^ 40"
  shows "\<bar>of_int (percent_of c n) - 100 * of_nat c / (of_nat n :: rat)\<bar> \<le> 1 / 2"
proof (cases "c = 0")
  case True
  then show ?thesis by (simp add: percent_of_def)
next
  case False
  define q :: rat where "q = of_nat c / of_nat n"
  define x :: rat where "x = 100 * q"
  define y where "y = fl64 q * 100"
  define p where "p = percent_of c n"
  have q: "0 < q" "q \<le> 1" using False n c by (simp_all add: q_def)
  have e1: "\<bar>fl64 q - q\<bar> \<le> q / 2 ^ 53" by (rule fl64_error[OF q(1)])
  have "q / 2 ^ 53 < q" using q by simp
  with e1 have q1: "0 < fl64 q" by linarith
  then have y: "0 < y" by (simp add: y_def)
  have e2: "\<bar>fl64 y - y\<bar> \<le> y / 2 ^ 53" by (rule fl64_error[OF y])
  have yxe: "y - x = 100 * (fl64 q - q)" by (simp add: y_def x_def algebra_simps)
  have "\<bar>y - x\<bar> = \<bar>100 * (fl64 q - q)\<bar>" by (simp only: yxe)
  also have "\<dots> = 100 * \<bar>fl64 q - q\<bar>" by (simp only: abs_mult)
  also have "\<dots> \<le> 100 * (q / 2 ^ 53)" using e1 by simp
  also have "\<dots> = x / 2 ^ 53" by (simp add: x_def)
  finally have yx: "\<bar>y - x\<bar> \<le> x / 2 ^ 53" .
  have x100: "0 < x" "x \<le> 100" using q by (simp_all add: x_def)
  have "x / 2 ^ 53 \<le> x" using x100 by simp
  with yx x100 have y200: "y \<le> 200" by linarith
  have "y / 2 ^ 53 \<le> 200 / 2 ^ 53" using y200 by (simp add: divide_right_mono)
  moreover have "x / 2 ^ 53 \<le> 100 / 2 ^ 53" using x100 by (simp add: divide_right_mono)
  moreover have "(200::rat) / 2 ^ 53 + 100 / 2 ^ 53 < 1 / 2 ^ 41" by simp
  ultimately have close: "\<bar>fl64 y - x\<bar> < 1 / 2 ^ 41"
    using e2 yx by linarith
  have p: "p = round_half_even (fl64 y)" by (simp add: p_def percent_of_def y_def q_def)
  have near: "\<bar>of_int p - fl64 y\<bar> \<le> 1 / 2" unfolding p by (rule round_half_even_error)
  from near close have px: "\<bar>of_int p - x\<bar> < 1 / 2 + 1 / 2 ^ 41" by linarith
  define m :: int where "m = 2 * int n * p - 200 * int c"
  have mx: "(of_int m :: rat) = 2 * of_nat n * (of_int p - x)"
    using n by (simp add: m_def x_def q_def field_simps)
  have nb: "(of_nat n :: rat) \<le> 2 ^ 40" using bound by (metis of_nat_le_iff of_nat_numeral of_nat_power)
  have "\<bar>of_int m :: rat\<bar> = 2 * of_nat n * \<bar>of_int p - x\<bar>"
    unfolding mx by (simp add: abs_mult)
  also have "\<dots> < 2 * of_nat n * (1 / 2 + 1 / 2 ^ 41)"
    using px n by (intro mult_strict_left_mono) simp_all
  also have "\<dots> = of_nat n + of_nat n / 2 ^ 40" by (simp add: algebra_simps)
  also have "\<dots> \<le> of_nat n + 1" using nb by simp
  finally have "\<bar>of_int m :: rat\<bar> < of_int (int n + 1)" by simp
  then have "\<bar>m\<bar> < int n + 1" by (metis of_int_abs of_int_less_iff)
  then have "\<bar>m\<bar> \<le> int n" by simp
  then have "\<bar>of_int m :: rat\<bar> \<le> of_nat n" by (metis of_int_abs of_int_le_iff of_int_of_nat_eq)
  then have "2 * of_nat n * \<bar>of_int p - x\<bar> \<le> (of_nat n :: rat)"
    unfolding mx by (simp add: abs_mult)
  then have "\<bar>of_int p - x\<bar> \<le> 1 / 2" using n by (simp add: field_simps)
  then show ?thesis by (simp add: p_def x_def q_def)
qed

lemma percent_of_full: "0 < n \<Longrightarrow> percent_of n n = 100"
proof -
  assume "0 < n"
  then have "(of_nat n :: rat) / of_nat n = 1" by simp
  moreover have "round_half_even (fl64 (fl64 1 * 100)) = 100" by code_simp
  ultimately show ?thesis by (simp add: percent_of_def)
qed

lemma completed_count_full:
  "(completed_count items = length items) = all_completed items"
proof (induction items)
  case Nil
  then show ?case by (simp add: completed_count_def all_completed_def)
next
  case (Cons x xs)
  have "length (filter (\<lambda>it. i_status it = ''completed'') xs) \<noteq> Suc (length xs)"
    using length_filter_le[of "\<lambda>it. i_status it = ''completed''" xs] by linarith
  with Cons show ?case
    by (auto simp: completed_count_def all_completed_def)
qed

lemma fst_read_one_step_doc:
  "fst (read_existing_state example_env ''plan.md'' (world_with one_step_doc))
     = Inr (Some ''plan.md'', Some one_step_state, [])"
  by code_simp

lemma read_one_step_doc:
  "read_existing_state example_env ''plan.md'' (world_with one_step_doc)
     = (Inr (Some ''plan.md'', Some one_step_state, []),
        snd (read_existing_state example_env ''plan.md'' (world_with one_step_doc)))"
  using fst_read_one_step_doc by (simp add: prod_eq_iff)

section \<open>C4: the percentage after a step update\<close>

text \<open>
  C4 as stated fails: completing the 23rd of forty steps stores 57, while \<open>100 * 23 / 40\<close>
  is \<open>57.5\<close>, which rounds to 58 (half to even, and half up). The quotient \<open>23 / 40\<close> is
  rounded to a float before it is multiplied by 100, and the product falls below \<open>57.5\<close>.
\<close>

theorem percent_23_of_40:
  "completed_count (steps (update_plan_state 23 ''completed'' [] ''t'' forty_step_state)) = 23
   \<and> length (steps (update_plan_state 23 ''completed'' [] ''t'' forty_step_state)) = 40
   \<and> percent_complete (update_plan_state 23 ''completed'' [] ''t'' forty_step_state)
       = Some (PInt 57)
   \<and> round_half_even (100 * 23 / 40) = 58
   \<and> \<lfloor>100 * 23 / (40 :: rat) + 1 / 2\<rfloor> = 58"
  by code_simp

text \<open>
  C4, amended. After every successful \<open>update_plan\<close> call the persisted state has at
  least one step and its \<open>percent_complete\<close> is \<open>int(round((completed / total) * 100))\<close> as
  computed on floats: an integer nearest to \<open>100 * completed / total\<close>, that is, at most
  one half away from it, for plans of up to \<open>2 ^ 40\<close> steps (where the exact value lies
  halfway between two integers, either of them may result). When all steps are
  completed it is 100 and the status is completed.
\<close>

theorem update_plan_percent:
  assumes "update_plan e n st nt pf w = (Inr msg, w')" and "\<not> is_error msg"
  shows "\<exists>path s w1 s'.
           read_existing_state e pf w = (Inr (Some path, Some s, []), w1)
           \<and> s' = update_plan_state n st nt (clock e (ticks w1)) s
           \<and> persisted_by w w' path s'
           \<and> steps s' \<noteq> []
           \<and> percent_complete s'
               = Some (PInt (percent_of (completed_count (steps s')) (length (steps s'))))
           \<and> (length (steps s') \<le> 2 ^ 40 \<longrightarrow>
                \<bar>of_int (percent_of (completed_count (steps s')) (length (steps s')))
                   - 100 * of_nat (completed_count (steps s')) / (of_nat (length (steps s')) :: rat)\<bar>
                  \<le> 1 / 2)
           \<and> (completed_count (steps s') = length (steps s') \<longrightarrow>
                percent_complete s' = Some (PInt 100) \<and> status s' = ''completed'')"
proof -
  from update_plan_success[OF assms] obtain path s w1 where
    rd: "read_existing_state e pf w = (Inr (Some path, Some s, []), w1)"
    and ne: "steps s \<noteq> []"
    and ps: "persisted_by w w' path (update_plan_state n st nt (clock e (ticks w1)) s)"
    by blast
  define s' where "s' = update_plan_state n st nt (clock e (ticks w1)) s"
  have len: "length (steps s') = length (steps s)" by (simp add: s'_def)
  with ne have ne': "steps s' \<noteq> []" by auto
  then have pos: "0 < length (steps s')" by simp
  have pc: "percent_complete s'
      = Some (PInt (percent_of (completed_count (steps s')) (length (steps s'))))"
    using ne' unfolding s'_def
    by (simp add: percent_update_plan_state completed_count_def Let_def)
  have le: "completed_count (steps s') \<le> length (steps s')"
    by (simp add: completed_count_def)
  have near: "length (steps s') \<le> 2 ^ 40 \<longrightarrow>
        \<bar>of_int (percent_of (completed_count (steps s')) (length (steps s')))
           - 100 * of_nat (completed_count (steps s')) / (of_nat (length (steps s')) :: rat)\<bar>
          \<le> 1 / 2"
    using percent_of_nearest[OF pos le] by blast
  have full: "completed_count (steps s') = length (steps s') \<longrightarrow>
                percent_complete s' = Some (PInt 100) \<and> status s' = ''completed''"
  proof
    assume a: "completed_count (steps s') = length (steps s')"
    then have "all_completed (steps s')" by (simp add: completed_count_full)
    with ne' have "status s' = ''completed''"
      unfolding s'_def by (simp add: status_update_plan_state)
    with pc a percent_of_full[OF pos]
    show "percent_complete s' = Some (PInt 100) \<and> status s' = ''completed''" by simp
  qed
  from rd ps ne' pc near full show ?thesis
    unfolding s'_def by blast
qed

theorem update_plan_percent_witness:
  "fst (update_plan example_env 1 ''completed'' [] ''plan.md'' (world_with one_step_doc))
     = Inr ''Updated step 1 to 'completed' in plan.md''
   \<and> \<not> is_error ''Updated step 1 to 'completed' in plan.md''
   \<and> (\<exists>path s'.
         persisted_by (world_with one_step_doc)
           (snd (update_plan example_env 1 ''completed'' [] ''plan.md'' (world_with one_step_doc)))
           path s'
         \<and> length (steps s') = 1 \<and> completed_count (steps s') = 1
         \<and> percent_complete s' = Some (PInt 100) \<and> status s' = ''completed''
         \<and> \<bar>of_int (percent_of 1 1) - 100 * of_nat 1 / (of_nat 1 :: rat)\<bar> \<le> 1 / 2)"
proof -
  have r: "fst (update_plan example_env 1 ''completed'' [] ''plan.md'' (world_with one_step_doc))
     = Inr ''Updated step 1 to 'completed' in plan.md''"
    by code_simp
  have ok: "\<not> is_error ''Updated step 1 to 'completed' in plan.md''" by code_simp
  have run: "update_plan example_env 1 ''completed'' [] ''plan.md'' (world_with one_step_doc)
     = (Inr ''Updated step 1 to 'completed' in plan.md'',
        snd (update_plan example_env 1 ''completed'' [] ''plan.md'' (world_with one_step_doc)))"
    using r by (simp add: prod_eq_iff)
  from update_plan_percent[OF run ok] obtain path s w1 s' where
    rd: "read_existing_state example_env ''plan.md'' (world_with one_step_doc)
           = (Inr (Some path, Some s, []), w1)"
    and s': "s' = update_plan_state 1 ''completed'' [] (clock example_env (ticks w1)) s"
    and ps: "persisted_by (world_with one_step_doc)
           (snd (update_plan example_env 1 ''completed'' [] ''plan.md'' (world_with one_step_doc)))
           path s'"
    and near: "length (steps s') \<le> 2 ^ 40 \<longrightarrow>
                \<bar>of_int (percent_of (completed_count (steps s')) (length (steps s')))
                   - 100 * of_nat (completed_count (steps s')) / (of_nat (length (steps s')) :: rat)\<bar>
                  \<le> 1 / 2"
    and full: "completed_count (steps s') = length (steps s') \<longrightarrow>
                percent_complete s' = Some (PInt 100) \<and> status s' = ''completed''"
    by blast
  from rd read_one_step_doc have s: "s = one_step_state" by simp
  have st: "steps (update_plan_state 1 ''completed'' [] ts one_step_state)
              = [\<lparr>i_id = 1, i_description = ''a'', i_status = ''completed''\<rparr>]" for ts
    by (simp add: steps_update_plan_state one_step_state_def)
  have l: "length (steps s') = 1" and c: "completed_count (steps s') = 1"
    unfolding s' s st by (simp_all add: completed_count_def)
  from near full l c ps r ok show ?thesis by auto
qed

section \<open>Strings and integers through the parser\<close>

lemma hex_value_hex_digit: "d < 16 \<Longrightarrow> hex_value (hex_digit d) = Some d"
  by (auto simp: hex_value_def hex_digit_def Let_def)

lemma of_char_less_256: "(of_char (c::char) :: nat) < 256"
  by (metis of_char_mod_256 mod_less_divisor zero_less_numeral)

lemma scan_encode_char:
  "scan_string acc (encode_char c @ tail) = scan_string (acc @ [c]) tail"
proof -
  let ?n = "of_char c :: nat"
  have n: "?n < 256" by (rule of_char_less_256)
  have d: "?n div 16 < 16" "?n mod 16 < 16"
    using n by (simp_all add: less_mult_imp_div_less)
  have bk: "char_of (16 * (?n div 16) + ?n mod 16) = c" by simp
  have zero: "hex_value (CHR ''0'') = Some 0" by (simp add: hex_value_def)
  show ?thesis
    using hex_value_hex_digit[OF d(1)] hex_value_hex_digit[OF d(2)] bk zero
    by (auto simp: encode_char_def Let_def unescape_def)
qed

lemma scan_encode_string:
  "scan_string acc (concat (map encode_char s) @ CHR 0x22 # rest) = Inr (acc @ s, rest)"
proof (induction s arbitrary: acc)
  case Nil
  then show ?case by simp
next
  case (Cons c s)
  have "scan_string acc (concat (map encode_char (c # s)) @ CHR 0x22 # rest)
        = scan_string acc (encode_char c @ (concat (map encode_char s) @ CHR 0x22 # rest))"
    by simp
  also have "\<dots> = scan_string (acc @ [c]) (concat (map encode_char s) @ CHR 0x22 # rest)"
    by (rule scan_encode_char)
  also have "\<dots> = Inr ((acc @ [c]) @ s, rest)" by (rule Cons.IH)
  finally show ?case by simp
qed

lemma is_digit_digit_char: "d < 10 \<Longrightarrow> is_digit (digit_char d)"
  by (simp add: is_digit_def digit_char_def)

lemma digit_char_value: "d < 10 \<Longrightarrow> (of_char (digit_char d) :: nat) - 48 = d"
  by (simp add: digit_char_def)

lemma digit_char_zero: "d < 10 \<Longrightarrow> (digit_char d = CHR ''0'') = (d = 0)"
proof -
  assume d: "d < 10"
  have "(digit_char d = CHR ''0'') = ((of_char (digit_char d) :: nat) = of_char (CHR ''0''))"
    by (metis char_of_char)
  also have "\<dots> = (d = 0)" using d by (simp add: digit_char_def)
  finally show ?thesis .
qed

lemma show_nat_0: "show_nat 0 = ''0''"
  by code_simp

lemma show_nat_digits: "show_nat n \<noteq> [] \<and> list_all is_digit (show_nat n)"
proof (induction n rule: show_nat.induct)
  case (1 n)
  show ?case
  proof (cases "n < 10")
    case True
    then show ?thesis by (subst show_nat.simps, subst show_nat.simps) (simp add: is_digit_digit_char)
  next
    case False
    with 1 show ?thesis
      by (subst show_nat.simps, subst (2) show_nat.simps) (simp add: is_digit_digit_char)
  qed
qed

lemma digits_value_snoc: "digits_value (xs @ [c]) = 10 * digits_value xs + (of_char c - 48)"
  by (simp add: digits_value_def)

lemma digits_value_show_nat: "digits_value (show_nat n) = n"
proof (induction n rule: show_nat.induct)
  case (1 n)
  show ?case
  proof (cases "n < 10")
    case True
    then show ?thesis
      by (subst show_nat.simps) (simp add: digits_value_def digit_char_value)
  next
    case False
    with 1 have "digits_value (show_nat (n div 10)) = n div 10" by simp
    with False show ?thesis
      by (subst show_nat.simps) (simp add: digits_value_snoc digit_char_value)
  qed
qed

lemma hd_show_nat_zero: "(hd (show_nat n) = CHR ''0'') = (n = 0)"
proof (induction n rule: show_nat.induct)
  case (1 n)
  show ?case
  proof (cases "n < 10")
    case True
    then show ?thesis by (subst show_nat.simps) (simp add: digit_char_zero)
  next
    case False
    then have "n div 10 \<noteq> 0" by simp
    with 1 False have "hd (show_nat (n div 10)) \<noteq> CHR ''0''" by simp
    moreover have "show_nat (n div 10) \<noteq> []" using show_nat_digits by simp
    ultimately show ?thesis using False
      by (subst show_nat.simps) simp
  qed
qed

lemma takeWhile_digits:
  "list_all is_digit ds \<Longrightarrow> number_end rest \<Longrightarrow> takeWhile is_digit (ds @ rest) = ds"
  by (cases rest) (auto simp: number_end_def list_all_iff takeWhile_append2)

lemma scan_number_digits:
  assumes ds: "ds = c # cs" and dig: "list_all is_digit ds"
    and lead: "c = CHR ''0'' \<longrightarrow> cs = []" and ne: "number_end rest"
  shows "scan_number e (ds @ rest) = Some (JInt (int (digits_value ds)), rest)"
    and "scan_number e (CHR ''-'' # ds @ rest) = Some (JInt (- int (digits_value ds)), rest)"
proof -
  from ds dig have dc: "is_digit c" and dcs: "list_all is_digit cs" by simp_all
  then have minus: "c \<noteq> CHR ''-''" by (auto simp: is_digit_def)
  have tw: "takeWhile is_digit (cs @ rest) = cs"
    using dcs ne by (rule takeWhile_digits)
  have fr: "(case rest of c # d # r \<Rightarrow> if c = CHR ''.'' \<and> is_digit d then c # takeWhile is_digit (d # r) else []
              | _ \<Rightarrow> []) = []"
    using ne by (auto simp: number_end_def split: list.splits)
  have ex: "(case rest of
                    [] \<Rightarrow> []
                  | c # r \<Rightarrow>
                      if c = CHR ''e'' \<or> c = CHR ''E'' then
                        (let sgn = (case r of [] \<Rightarrow> []
                                    | x # _ \<Rightarrow> if x = CHR ''+'' \<or> x = CHR ''-'' then [x] else []);
                             ds = takeWhile is_digit (drop (length sgn) r)
                         in if ds = [] then [] else c # sgn @ ds)
                      else []) = []"
    using ne by (auto simp: number_end_def split: list.splits)
  show "scan_number e (ds @ rest) = Some (JInt (int (digits_value ds)), rest)"
  proof (cases "c = CHR ''0''")
    case True
    with lead have "cs = []" by simp
    with True show ?thesis
      unfolding scan_number_def ds using fr ex by (simp add: Let_def)
  next
    case False
    then show ?thesis
      unfolding scan_number_def ds using minus dc tw fr ex by (simp add: Let_def)
  qed
  show "scan_number e (CHR ''-'' # ds @ rest) = Some (JInt (- int (digits_value ds)), rest)"
  proof (cases "c = CHR ''0''")
    case True
    with lead have "cs = []" by simp
    with True show ?thesis
      unfolding scan_number_def ds using fr ex by (simp add: Let_def)
  next
    case False
    then show ?thesis
      unfolding scan_number_def ds using dc tw fr ex by (simp add: Let_def)
  qed
qed

lemma show_nat_shape:
  "\<exists>c cs. show_nat n = c # cs \<and> (c = CHR ''0'' \<longrightarrow> cs = [])"
proof -
  obtain c cs where sn: "show_nat n = c # cs"
    using show_nat_digits[of n] by (cases "show_nat n") auto
  have "c = CHR ''0'' \<longrightarrow> cs = []"
  proof
    assume "c = CHR ''0''"
    with sn hd_show_nat_zero[of n] have "n = 0" by simp
    with sn show "cs = []" by (simp add: show_nat_0)
  qed
  with sn show ?thesis by blast
qed

lemma scan_number_nat:
  assumes "number_end rest"
  shows "scan_number e (show_nat n @ rest) = Some (JInt (int n), rest)"
proof -
  from show_nat_shape[of n] obtain c cs where
    sn: "show_nat n = c # cs" and z: "c = CHR ''0'' \<longrightarrow> cs = []" by blast
  from scan_number_digits(1)[OF sn _ z assms, of e] show_nat_digits[of n]
  show ?thesis by (simp add: digits_value_show_nat)
qed

lemma scan_number_neg:
  assumes "number_end rest"
  shows "scan_number e (CHR ''-'' # show_nat n @ rest) = Some (JInt (- int n), rest)"
proof -
  from show_nat_shape[of n] obtain c cs where
    sn: "show_nat n = c # cs" and z: "c = CHR ''0'' \<longrightarrow> cs = []" by blast
  from scan_number_digits(2)[OF sn _ z assms, of e] show_nat_digits[of n]
  show ?thesis by (simp add: digits_value_show_nat)
qed

lemma scan_number_int:
  assumes "number_end rest"
  shows "scan_number e (show_int i @ rest) = Some (JInt i, rest)"
proof (cases "i < 0")
  case True
  from scan_number_neg[OF assms, of e "nat (- i)"] True show ?thesis by (simp add: show_int_def)
next
  case False
  with scan_number_nat[OF assms, of e "nat i"] show ?thesis by (simp add: show_int_def)
qed

lemma show_int_start:
  "\<exists>c cs. show_int i = c # cs \<and> (is_digit c \<or> c = CHR ''-'')
      \<and> (c = CHR ''-'' \<longrightarrow> (\<exists>d ds. cs = d # ds \<and> is_digit d))"
proof (cases "i < 0")
  case True
  obtain d ds where "show_nat (nat (- i)) = d # ds"
    using show_nat_digits[of "nat (- i)"] by (cases "show_nat (nat (- i))") auto
  with show_nat_digits[of "nat (- i)"] True show ?thesis by (auto simp: show_int_def)
next
  case False
  obtain d ds where "show_nat (nat i) = d # ds"
    using show_nat_digits[of "nat i"] by (cases "show_nat (nat i)") auto
  with show_nat_digits[of "nat i"] False show ?thesis by (auto simp: show_int_def is_digit_def)
qed

lemma parse_value_int:
  assumes "number_end rest"
  shows "parse_value e (Suc f) (show_int i @ rest) = Inr (JInt i, rest)"
proof -
  from show_int_start[of i] obtain c cs where
    si: "show_int i = c # cs" and c: "is_digit c \<or> c = CHR ''-''"
    and m: "c = CHR ''-'' \<longrightarrow> (\<exists>d ds. cs = d # ds \<and> is_digit d)" by blast
  have nots: "c \<noteq> CHR 0x22" "c \<noteq> CHR ''{''" "c \<noteq> CHR ''[''" "c \<noteq> CHR ''n''" "c \<noteq> CHR ''t''"
    "c \<noteq> CHR ''f''" "c \<noteq> CHR ''N''" "c \<noteq> CHR ''I''"
    using c by (auto simp: is_digit_def)
  have inf: "\<not> startswith (c # cs @ rest) ''-Infinity''"
  proof (cases "c = CHR ''-''")
    case True
    with m obtain d ds where "cs = d # ds" "is_digit d" by blast
    then show ?thesis by (auto simp: startswith_def is_digit_def)
  next
    case False
    then show ?thesis by (simp add: startswith_def)
  qed
  from scan_number_int[OF assms, of e i] si
  have sc: "scan_number e (c # cs @ rest) = Some (JInt i, rest)" by simp
  show ?thesis
    unfolding si using nots inf sc by (simp add: startswith_def)
qed

lemma parse_value_string:
  "parse_value e (Suc f) (encode_string s @ rest) = Inr (JStr s, rest)"
  using scan_encode_string[of "[]" s rest] by (simp add: encode_string_def)

lemma parse_value_literals:
  "parse_value e (Suc f) (''null'' @ rest) = Inr (JNull, rest)"
  "parse_value e (Suc f) (''true'' @ rest) = Inr (JBool True, rest)"
  "parse_value e (Suc f) (''false'' @ rest) = Inr (JBool False, rest)"
  by (simp_all add: startswith_def)

section \<open>Printed values through the parser\<close>

lemma dumps_elements_map: "dumps_elements lv xs = map (dumps_at lv) xs"
  by (induction xs) simp_all

lemma dumps_members_map: "dumps_members lv kvs = map (\<lambda>(k, v). (k, dumps_at lv v)) kvs"
  by (induction kvs) auto

lemma canon_elements_map: "canon_elements xs = map canon xs"
  by (induction xs) simp_all

lemma canon_members_map: "canon_members kvs = map (\<lambda>(k, v). (k, canon v)) kvs"
  by (induction kvs) auto

lemma printable_elements_iff: "printable_elements xs = (\<forall>x\<in>set xs. printable x)"
  by (induction xs) simp_all

lemma printable_members_iff: "printable_members kvs = (\<forall>(k, v)\<in>set kvs. printable v)"
  by (induction kvs) auto

lemma insort_key_map_snd:
  "insort_key fst (k, g v) (map (\<lambda>(k, v). (k, g v)) ys)
     = map (\<lambda>(k, v). (k, g v)) (insort_key fst (k, v) ys)"
  by (induction ys) auto

lemma sort_key_map_snd:
  "sort_key fst (map (\<lambda>(k, v). (k, g v)) xs) = map (\<lambda>(k, v). (k, g v)) (sort_key fst xs)"
proof (induction xs)
  case Nil
  then show ?case by simp
next
  case (Cons x xs)
  obtain k v where x: "x = (k, v)" by (cases x)
  from Cons show ?case by (simp add: x insort_key_map_snd)
qed

lemma value_start_not:
  "value_start c \<Longrightarrow> \<not> json_ws c \<and> c \<noteq> CHR '']'' \<and> c \<noteq> CHR ''}'' \<and> c \<noteq> CHR '',''"
  by (auto simp: value_start_def json_ws_def is_digit_def)

lemma dumps_at_start:
  "printable j \<Longrightarrow> \<exists>c cs. dumps_at level j = c # cs \<and> value_start c"
proof (cases j)
  case (JInt i)
  with show_int_start[of i] show ?thesis by (auto simp: value_start_def)
next
  case (JStr s)
  then show ?thesis by (simp add: encode_string_def value_start_def)
qed (auto simp: value_start_def)

lemma skip_ws_indent:
  "\<not> json_ws c \<Longrightarrow> skip_ws (newline_indent l @ c # r) = c # r"
  by (simp add: skip_ws_def newline_indent_def json_ws_def dropWhile_append)

lemma number_end_indent: "number_end (newline_indent l @ r)"
  by (simp add: number_end_def newline_indent_def is_digit_def)

lemma number_end_comma: "number_end (CHR '','' # r)"
  by (simp add: number_end_def is_digit_def)

lemma dict_set_fresh: "k \<notin> fst ` set acc \<Longrightarrow> dict_set acc k v = acc @ [(k, v)]"
  by (induction acc) auto

lemma parse_elements_printed:
  assumes "\<forall>x\<in>set xs. parses e x \<and> printable x" and "xs \<noteq> []"
  shows "\<exists>f0. \<forall>f\<ge>f0. \<forall>lv cl acc rest.
           parse_elements e f acc
             (join (CHR '','' # newline_indent lv) (map (dumps_at lv) xs)
                @ newline_indent cl @ CHR '']'' # rest)
           = Inr (acc @ map canon xs, rest)"
  using assms
proof (induction xs)
  case Nil
  then show ?case by simp
next
  case (Cons x xs)
  from Cons.prems have px: "parses e x" by simp
  from px obtain fx where fx0: "\<forall>f\<ge>fx. \<forall>level rest. number_end rest \<longrightarrow>
      parse_value e f (dumps_at level x @ rest) = Inr (canon x, rest)"
    unfolding parses_def by blast
  have fx: "\<And>f level rest. fx \<le> f \<Longrightarrow> number_end rest \<Longrightarrow>
      parse_value e f (dumps_at level x @ rest) = Inr (canon x, rest)"
    using fx0 by blast
  show ?case
  proof (cases xs)
    case Nil
    have "\<forall>f\<ge>Suc fx. \<forall>lv cl acc rest.
           parse_elements e f acc
             (join (CHR '','' # newline_indent lv) (map (dumps_at lv) (x # xs))
                @ newline_indent cl @ CHR '']'' # rest)
           = Inr (acc @ map canon (x # xs), rest)"
    proof (intro allI impI)
      fix f lv cl acc rest
      assume "Suc fx \<le> f"
      then obtain f' where f: "f = Suc f'" and f': "fx \<le> f'" by (cases f) auto
      have pv: "parse_value e f' (dumps_at lv x @ newline_indent cl @ CHR '']'' # rest)
                 = Inr (canon x, newline_indent cl @ CHR '']'' # rest)"
        by (rule fx[OF f' number_end_indent])
      have sk: "skip_ws (newline_indent cl @ CHR '']'' # rest) = CHR '']'' # rest"
        by (rule skip_ws_indent) (simp add: json_ws_def)
      show "parse_elements e f acc
             (join (CHR '','' # newline_indent lv) (map (dumps_at lv) (x # xs))
                @ newline_indent cl @ CHR '']'' # rest)
           = Inr (acc @ map canon (x # xs), rest)"
        unfolding f Nil using pv sk by simp
    qed
    then show ?thesis by blast
  next
    case (Cons y ys)
    with Cons.IH Cons.prems obtain fxs where fxs: "\<forall>f\<ge>fxs. \<forall>lv cl acc rest.
           parse_elements e f acc
             (join (CHR '','' # newline_indent lv) (map (dumps_at lv) xs)
                @ newline_indent cl @ CHR '']'' # rest)
           = Inr (acc @ map canon xs, rest)"
      by auto
    from Cons Cons.prems have py: "printable y" by simp
    have "\<forall>f\<ge>Suc (max fx fxs). \<forall>lv cl acc rest.
           parse_elements e f acc
             (join (CHR '','' # newline_indent lv) (map (dumps_at lv) (x # xs))
                @ newline_indent cl @ CHR '']'' # rest)
           = Inr (acc @ map canon (x # xs), rest)"
    proof (intro allI impI)
      fix f lv cl acc rest
      assume "Suc (max fx fxs) \<le> f"
      then obtain f' where f: "f = Suc f'" and f1: "fx \<le> f'" and f2: "fxs \<le> f'"
        by (cases f) auto
      let ?tail = "join (CHR '','' # newline_indent lv) (map (dumps_at lv) xs)
                     @ newline_indent cl @ CHR '']'' # rest"
      from dumps_at_start[OF py, of lv] obtain c cs where
        yc: "dumps_at lv y = c # cs" and vs: "value_start c" by blast
      have "xs = y # ys" by (rule Cons)
      then obtain r where tl: "?tail = c # r"
        using yc by (cases ys) simp_all
      have whole: "join (CHR '','' # newline_indent lv) (map (dumps_at lv) (x # xs))
                @ newline_indent cl @ CHR '']'' # rest
                = dumps_at lv x @ CHR '','' # newline_indent lv @ ?tail"
        using Cons by simp
      have pv: "parse_value e f' (dumps_at lv x @ CHR '','' # newline_indent lv @ ?tail)
                 = Inr (canon x, CHR '','' # newline_indent lv @ ?tail)"
        by (rule fx[OF f1 number_end_comma])
      have sk: "skip_ws (newline_indent lv @ ?tail) = ?tail"
        unfolding tl using value_start_not[OF vs] by (simp add: skip_ws_indent)
      have rec: "parse_elements e f' (acc @ [canon x]) ?tail
                  = Inr ((acc @ [canon x]) @ map canon xs, rest)"
        using fxs f2 by blast
      show "parse_elements e f acc
             (join (CHR '','' # newline_indent lv) (map (dumps_at lv) (x # xs))
                @ newline_indent cl @ CHR '']'' # rest)
           = Inr (acc @ map canon (x # xs), rest)"
        unfolding whole f using pv sk rec by (simp add: skip_ws_def json_ws_def)
    qed
    then show ?thesis by blast
  qed
qed

lemma encode_string_Cons: "encode_string k = CHR 0x22 # concat (map encode_char k) @ [CHR 0x22]"
  by (simp add: encode_string_def)

lemma parse_members_printed:
  assumes "\<forall>(k, v)\<in>set ms. parses e v \<and> printable v" and "ms \<noteq> []"
    and "distinct (map fst ms)"
  shows "\<exists>f0. \<forall>f\<ge>f0. \<forall>lv cl acc rest. fst ` set acc \<inter> fst ` set ms = {} \<longrightarrow>
           parse_members e f acc
             (join (CHR '','' # newline_indent lv)
                (map (\<lambda>(k, v). encode_string k @ '': '' @ dumps_at lv v) ms)
                @ newline_indent cl @ CHR ''}'' # rest)
           = Inr (acc @ map (\<lambda>(k, v). (k, canon v)) ms, rest)"
  using assms
proof (induction ms)
  case Nil
  then show ?case by simp
next
  case (Cons m ms)
  obtain k v where m: "m = (k, v)" by (cases m)
  from Cons.prems m have pv: "parses e v" and prv: "printable v" by auto
  from pv obtain fv where fv0: "\<forall>f\<ge>fv. \<forall>level rest. number_end rest \<longrightarrow>
      parse_value e f (dumps_at level v @ rest) = Inr (canon v, rest)"
    unfolding parses_def by blast
  have fv: "\<And>f level rest. fv \<le> f \<Longrightarrow> number_end rest \<Longrightarrow>
      parse_value e f (dumps_at level v @ rest) = Inr (canon v, rest)"
    using fv0 by blast
  have key: "\<And>R. scan_string [] (concat (map encode_char k) @ CHR 0x22 # R) = Inr (k, R)"
    using scan_encode_string[of "[]" k] by simp
  have val_skip: "\<And>lv R. skip_ws (CHR '' '' # dumps_at lv v @ R) = dumps_at lv v @ R"
  proof -
    fix lv R
    from dumps_at_start[OF prv, of lv] obtain c cs where
      "dumps_at lv v = c # cs" "value_start c" by blast
    with value_start_not[of c] show "skip_ws (CHR '' '' # dumps_at lv v @ R) = dumps_at lv v @ R"
      by (simp add: skip_ws_def json_ws_def)
  qed
  show ?case
  proof (cases ms)
    case Nil
    have "\<forall>f\<ge>Suc fv. \<forall>lv cl acc rest. fst ` set acc \<inter> fst ` set (m # ms) = {} \<longrightarrow>
           parse_members e f acc
             (join (CHR '','' # newline_indent lv)
                (map (\<lambda>(k, v). encode_string k @ '': '' @ dumps_at lv v) (m # ms))
                @ newline_indent cl @ CHR ''}'' # rest)
           = Inr (acc @ map (\<lambda>(k, v). (k, canon v)) (m # ms), rest)"
    proof (intro allI impI)
      fix f lv cl acc rest
      assume "Suc fv \<le> f" and dis: "fst ` set (acc :: (string \<times> json) list) \<inter> fst ` set (m # ms) = {}"
      then obtain f' where f: "f = Suc f'" and f': "fv \<le> f'" by (cases f) auto
      from dis m have fresh: "k \<notin> fst ` set acc" by auto
      have pval: "parse_value e f' (dumps_at lv v @ newline_indent cl @ CHR ''}'' # rest)
                 = Inr (canon v, newline_indent cl @ CHR ''}'' # rest)"
        by (rule fv[OF f' number_end_indent])
      have sk: "skip_ws (newline_indent cl @ CHR ''}'' # rest) = CHR ''}'' # rest"
        by (rule skip_ws_indent) (simp add: json_ws_def)
      show "parse_members e f acc
             (join (CHR '','' # newline_indent lv)
                (map (\<lambda>(k, v). encode_string k @ '': '' @ dumps_at lv v) (m # ms))
                @ newline_indent cl @ CHR ''}'' # rest)
           = Inr (acc @ map (\<lambda>(k, v). (k, canon v)) (m # ms), rest)"
        unfolding f Nil m
        using key val_skip pval sk dict_set_fresh[OF fresh]
        by (simp add: encode_string_Cons skip_ws_def json_ws_def)
    qed
    then show ?thesis by blast
  next
    case (Cons m2 ms2)
    obtain k2 v2 where m2: "m2 = (k2, v2)" by (cases m2)
    from Cons Cons.IH Cons.prems obtain fms where fms: "\<forall>f\<ge>fms. \<forall>lv cl acc rest.
           fst ` set acc \<inter> fst ` set ms = {} \<longrightarrow>
           parse_members e f acc
             (join (CHR '','' # newline_indent lv)
                (map (\<lambda>(k, v). encode_string k @ '': '' @ dumps_at lv v) ms)
                @ newline_indent cl @ CHR ''}'' # rest)
           = Inr (acc @ map (\<lambda>(k, v). (k, canon v)) ms, rest)"
      by auto
    have "\<forall>f\<ge>Suc (max fv fms). \<forall>lv cl acc rest. fst ` set acc \<inter> fst ` set (m # ms) = {} \<longrightarrow>
           parse_members e f acc
             (join (CHR '','' # newline_indent lv)
                (map (\<lambda>(k, v). encode_string k @ '': '' @ dumps_at lv v) (m # ms))
                @ newline_indent cl @ CHR ''}'' # rest)
           = Inr (acc @ map (\<lambda>(k, v). (k, canon v)) (m # ms), rest)"
    proof (intro allI impI)
      fix f lv cl acc rest
      assume "Suc (max fv fms) \<le> f" and dis: "fst ` set (acc :: (string \<times> json) list) \<inter> fst ` set (m # ms) = {}"
      then obtain f' where f: "f = Suc f'" and f1: "fv \<le> f'" and f2: "fms \<le> f'"
        by (cases f) auto
      from dis m have fresh: "k \<notin> fst ` set acc" by auto
      from Cons.prems(3) m have knew: "k \<notin> fst ` set ms" by auto
      with dis have dis': "fst ` set (acc @ [(k, canon v)]) \<inter> fst ` set ms = {}" by auto
      let ?tail = "join (CHR '','' # newline_indent lv)
                (map (\<lambda>(k, v). encode_string k @ '': '' @ dumps_at lv v) ms)
                @ newline_indent cl @ CHR ''}'' # rest"
      have "ms = m2 # ms2" by (rule Cons)
      then obtain r where tl: "?tail = CHR 0x22 # r"
        using m2 by (cases ms2) (simp_all add: encode_string_Cons)
      have whole: "join (CHR '','' # newline_indent lv)
                (map (\<lambda>(k, v). encode_string k @ '': '' @ dumps_at lv v) (m # ms))
                @ newline_indent cl @ CHR ''}'' # rest
            = CHR 0x22 # concat (map encode_char k) @ CHR 0x22 # CHR '':'' # CHR '' ''
                # dumps_at lv v @ CHR '','' # newline_indent lv @ ?tail"
        using Cons m by (simp add: encode_string_Cons)
      have pval: "parse_value e f' (dumps_at lv v @ CHR '','' # newline_indent lv @ ?tail)
                 = Inr (canon v, CHR '','' # newline_indent lv @ ?tail)"
        by (rule fv[OF f1 number_end_comma])
      have sk: "skip_ws (newline_indent lv @ ?tail) = ?tail"
        unfolding tl by (rule skip_ws_indent) (simp add: json_ws_def)
      have rec: "parse_members e f' (acc @ [(k, canon v)]) ?tail
                  = Inr ((acc @ [(k, canon v)]) @ map (\<lambda>(k, v). (k, canon v)) ms, rest)"
        using fms f2 dis' by blast
      show "parse_members e f acc
             (join (CHR '','' # newline_indent lv)
                (map (\<lambda>(k, v). encode_string k @ '': '' @ dumps_at lv v) (m # ms))
                @ newline_indent cl @ CHR ''}'' # rest)
           = Inr (acc @ map (\<lambda>(k, v). (k, canon v)) (m # ms), rest)"
        unfolding whole f
        using key val_skip pval sk rec dict_set_fresh[OF fresh] m
        by (simp add: skip_ws_def json_ws_def)
    qed
    then show ?thesis by blast
  qed
qed

lemma parses_atom:
  assumes "\<And>f level rest. number_end rest \<Longrightarrow>
             parse_value e (Suc f) (dumps_at level j @ rest) = Inr (canon j, rest)"
  shows "parses e j"
  unfolding parses_def
proof (intro exI[of _ 1] allI impI)
  fix f level rest
  assume "1 \<le> (f::nat)" and ne: "number_end rest"
  then obtain f' where "f = Suc f'" by (cases f) auto
  with assms[OF ne] show "parse_value e f (dumps_at level j @ rest) = Inr (canon j, rest)"
    by simp
qed

lemma parses_list:
  assumes "\<forall>x\<in>set xs. parses e x \<and> printable x"
  shows "parses e (JList xs)"
proof (cases "xs = []")
  case True
  show ?thesis
    by (rule parses_atom) (simp add: True skip_ws_def json_ws_def)
next
  case False
  from parse_elements_printed[OF assms False] obtain fa where fa: "\<forall>f\<ge>fa. \<forall>lv cl acc rest.
           parse_elements e f acc
             (join (CHR '','' # newline_indent lv) (map (dumps_at lv) xs)
                @ newline_indent cl @ CHR '']'' # rest)
           = Inr (acc @ map canon xs, rest)"
    by blast
  from False obtain x xs' where xs: "xs = x # xs'" by (cases xs) auto
  with assms have "printable x" by simp
  show ?thesis
    unfolding parses_def
  proof (intro exI[of _ "Suc fa"] allI impI)
    fix f level rest
    assume "Suc fa \<le> f"
    then obtain f' where f: "f = Suc f'" and f': "fa \<le> f'" by (cases f) auto
    let ?body = "join (CHR '','' # newline_indent (Suc level)) (map (dumps_at (Suc level)) xs)
                @ newline_indent level @ CHR '']'' # rest"
    from dumps_at_start[OF \<open>printable x\<close>, of "Suc level"] obtain c cs where
      xc: "dumps_at (Suc level) x = c # cs" and vs: "value_start c" by blast
    obtain r where body: "?body = c # r"
      using xs xc by (cases xs') simp_all
    have sk: "skip_ws (newline_indent (Suc level) @ ?body) = ?body"
      unfolding body using value_start_not[OF vs] by (simp add: skip_ws_indent)
    have pe: "parse_elements e f' [] ?body = Inr ([] @ map canon xs, rest)"
      using fa f' by blast
    have whole: "dumps_at level (JList xs) @ rest
                  = CHR ''['' # newline_indent (Suc level) @ ?body"
      using False by (simp add: dumps_elements_map)
    have notclose: "c \<noteq> CHR '']''" using value_start_not[OF vs] by simp
    show "parse_value e f (dumps_at level (JList xs) @ rest) = Inr (canon (JList xs), rest)"
      unfolding whole f
      using sk pe[unfolded body] notclose body
      by (simp add: canon_elements_map)
  qed
qed

lemma parses_object:
  assumes "\<forall>(k, v)\<in>set kvs. parses e v \<and> printable v" and "distinct (map fst kvs)"
  shows "parses e (JObj kvs)"
proof (cases "kvs = []")
  case True
  show ?thesis
    by (rule parses_atom) (simp add: True skip_ws_def json_ws_def)
next
  case False
  let ?ms = "sort_key fst kvs"
  have set: "set ?ms = set kvs" by simp
  have "length ?ms = length kvs" by simp
  with False have ne: "?ms \<noteq> []" by (cases ?ms) simp_all
  have dist: "distinct (map fst ?ms)"
    using assms(2) by (simp add: distinct_map)
  from assms(1) set have all: "\<forall>(k, v)\<in>set ?ms. parses e v \<and> printable v" by simp
  from parse_members_printed[OF all ne dist] obtain fa where fa: "\<forall>f\<ge>fa. \<forall>lv cl acc rest.
           fst ` set acc \<inter> fst ` set ?ms = {} \<longrightarrow>
           parse_members e f acc
             (join (CHR '','' # newline_indent lv)
                (map (\<lambda>(k, v). encode_string k @ '': '' @ dumps_at lv v) ?ms)
                @ newline_indent cl @ CHR ''}'' # rest)
           = Inr (acc @ map (\<lambda>(k, v). (k, canon v)) ?ms, rest)"
    by blast
  have render: "\<And>lv. map (\<lambda>(k, text). encode_string k @ CHR '':'' # CHR '' '' # text)
                  (sort_key fst (dumps_members lv kvs))
               = map (\<lambda>(k, v). encode_string k @ CHR '':'' # CHR '' '' # dumps_at lv v) ?ms"
  proof -
    fix lv
    have "sort_key fst (dumps_members lv kvs) = map (\<lambda>(k, v). (k, dumps_at lv v)) ?ms"
      by (simp only: dumps_members_map sort_key_map_snd)
    then show "map (\<lambda>(k, text). encode_string k @ CHR '':'' # CHR '' '' # text)
                  (sort_key fst (dumps_members lv kvs))
               = map (\<lambda>(k, v). encode_string k @ CHR '':'' # CHR '' '' # dumps_at lv v) ?ms"
      by (simp add: split_def)
  qed
  have can: "canon (JObj kvs) = JObj (map (\<lambda>(k, v). (k, canon v)) ?ms)"
  proof -
    have "sort_key fst (canon_members kvs) = map (\<lambda>(k, v). (k, canon v)) ?ms"
      by (simp only: canon_members_map sort_key_map_snd)
    then show ?thesis by simp
  qed
  show ?thesis
    unfolding parses_def
  proof (intro exI[of _ "Suc fa"] allI impI)
    fix f level rest
    assume "Suc fa \<le> f"
    then obtain f' where f: "f = Suc f'" and f': "fa \<le> f'" by (cases f) auto
    let ?body = "join (CHR '','' # newline_indent (Suc level))
                (map (\<lambda>(k, v). encode_string k @ '': '' @ dumps_at (Suc level) v) ?ms)
                @ newline_indent level @ CHR ''}'' # rest"
    obtain m ms' where ms: "?ms = m # ms'" using ne by (cases ?ms) auto
    obtain r where body: "?body = CHR 0x22 # r"
      unfolding ms by (cases m; cases ms') (simp_all add: encode_string_Cons)
    have sk: "skip_ws (newline_indent (Suc level) @ ?body) = ?body"
      unfolding body by (rule skip_ws_indent) (simp add: json_ws_def)
    have emp: "fst ` set ([] :: (string \<times> json) list) \<inter> fst ` set ?ms = {}" by simp
    have pm: "parse_members e f' [] ?body = Inr ([] @ map (\<lambda>(k, v). (k, canon v)) ?ms, rest)"
      using fa[rule_format, OF f' emp] .
    have whole: "dumps_at level (JObj kvs) @ rest
                  = CHR ''{'' # newline_indent (Suc level) @ ?body"
      using False by (simp add: render)
    show "parse_value e f (dumps_at level (JObj kvs) @ rest) = Inr (canon (JObj kvs), rest)"
      unfolding whole f can
      using sk pm[unfolded body] body
      by simp
  qed
qed

lemma printable_parses: "printable j \<Longrightarrow> parses e j"
proof (induction j)
  case JNull
  show ?case by (rule parses_atom) (simp add: parse_value_literals[simplified])
next
  case (JBool b)
  show ?case by (rule parses_atom) (cases b; simp add: startswith_def)
next
  case (JInt i)
  show ?case
    by (rule parses_atom) (simp only: dumps_at.simps canon.simps parse_value_int)
next
  case (JFloat r)
  then show ?case by simp
next
  case (JStr s)
  show ?case
    by (rule parses_atom) (simp only: dumps_at.simps canon.simps parse_value_string)
next
  case (JList xs)
  then have "\<forall>x\<in>set xs. parses e x \<and> printable x"
    by (simp add: printable_elements_iff)
  then show ?case by (rule parses_list)
next
  case (JObj kvs)
  from JObj.prems have d: "distinct (map fst kvs)"
    and p: "\<forall>(k, v)\<in>set kvs. printable v"
    by (simp_all add: printable_members_iff)
  have "\<forall>(k, v)\<in>set kvs. parses e v \<and> printable v"
  proof (clarify)
    fix k v assume kv: "(k, v) \<in> set kvs"
    with p have pv: "printable v" by auto
    from kv have "v \<in> Basic_BNFs.snds (k, v)" by simp
    from JObj.IH[OF kv this pv] pv show "parses e v \<and> printable v" by simp
  qed
  then show ?case using d by (rule parses_object)
qed

section \<open>The parser's call budget\<close>

lemma scan_string_step:
  "(c = CHR 0x22 \<and> scan_string acc (c # cs) = Inr (acc, cs))
   \<or> (\<exists>err. scan_string acc (c # cs) = Inl err \<and> err \<noteq> Out_Of_Fuel)
   \<or> (\<exists>acc' cs'. length cs' \<le> length cs \<and> scan_string acc (c # cs) = scan_string acc' cs')"
proof (cases "c = CHR 0x22")
  case True
  then show ?thesis by simp
next
  case nq: False
  show ?thesis
  proof (cases "c = CHR 0x5C")
    case False
    with nq have "scan_string acc (c # cs) = Inl JSONDecodeError
                  \<or> scan_string acc (c # cs) = scan_string (acc @ [c]) cs"
      by (cases "(of_char c :: nat) < 32") auto
    moreover have "JSONDecodeError \<noteq> Out_Of_Fuel" by simp
    ultimately show ?thesis by blast
  next
    case bs: True
    show ?thesis
    proof (cases cs)
      case Nil
      with nq bs show ?thesis by simp
    next
      case (Cons y ys)
      show ?thesis
      proof (cases "y = CHR ''u''")
        case False
        with nq bs Cons have "scan_string acc (c # cs) = Inl JSONDecodeError
                  \<or> (\<exists>acc'. scan_string acc (c # cs) = scan_string acc' ys)"
          by (cases "unescape y") auto
        moreover have "length ys \<le> length cs" using Cons by simp
        moreover have "JSONDecodeError \<noteq> Out_Of_Fuel" by simp
        ultimately show ?thesis by blast
      next
        case u: True
        show ?thesis
        proof (cases "\<exists>h1 h2 h3 h4 r'. ys = h1 # h2 # h3 # h4 # r'")
          case False
          with nq bs Cons u have "scan_string acc (c # cs) = Inl JSONDecodeError"
            by (auto split: list.splits)
          then show ?thesis by simp
        next
          case True
          then obtain h1 h2 h3 h4 r' where ys: "ys = h1 # h2 # h3 # h4 # r'" by blast
          have "scan_string acc (c # cs) = Inl JSONDecodeError
                \<or> scan_string acc (c # cs) = Inl Beyond_Latin1
                \<or> (\<exists>acc'. scan_string acc (c # cs) = scan_string acc' r')"
            using nq bs Cons u ys
            by (cases "hex_value h1"; cases "hex_value h2"; cases "hex_value h3"; cases "hex_value h4")
               auto
          moreover have "length r' \<le> length cs" using Cons ys by simp
          moreover have "JSONDecodeError \<noteq> Out_Of_Fuel" "Beyond_Latin1 \<noteq> Out_Of_Fuel" by simp_all
          ultimately show ?thesis by blast
        qed
      qed
    qed
  qed
qed

lemma scan_string_shorter: "scan_string acc s = Inr (x, r) \<Longrightarrow> length r < length s"
proof (induction "length s" arbitrary: acc s rule: less_induct)
  case less
  show ?case
  proof (cases s)
    case Nil
    with less.prems show ?thesis by simp
  next
    case (Cons c cs)
    from scan_string_step[of c acc cs] less.prems Cons consider
      (quote) "r = cs"
      | (again) acc' cs' where "length cs' \<le> length cs" "scan_string acc' cs' = Inr (x, r)"
      by auto
    then show ?thesis
    proof cases
      case quote
      with Cons show ?thesis by simp
    next
      case again
      from less.hyps[OF _ again(2)] again(1) Cons show ?thesis by simp
    qed
  qed
qed

lemma scan_string_fuel: "scan_string acc s \<noteq> Inl Out_Of_Fuel"
proof (induction "length s" arbitrary: acc s rule: less_induct)
  case less
  show ?case
  proof (cases s)
    case Nil
    then show ?thesis by simp
  next
    case (Cons c cs)
    from scan_string_step[of c acc cs] Cons consider
      (fin) "scan_string acc s \<noteq> Inl Out_Of_Fuel"
      | (again) acc' cs' where "length cs' \<le> length cs" "scan_string acc s = scan_string acc' cs'"
      by auto
    then show ?thesis
    proof cases
      case fin
      then show ?thesis .
    next
      case again
      from less.hyps[of cs' acc'] again Cons show ?thesis by simp
    qed
  qed
qed

lemma scan_number_shorter:
  assumes "scan_number e s = Some (v, r)"
  shows "length r < length s"
proof -
  define s1 where "s1 = snd (case s of [] \<Rightarrow> (False, s)
                       | c # r \<Rightarrow> if c = CHR ''-'' then (True, r) else (False, s))"
  define ip where "ip = (case s1 of [] \<Rightarrow> []
                | c # r \<Rightarrow> if c = CHR ''0'' then ''0''
                           else if is_digit c then takeWhile is_digit s1 else [])"
  have l1: "length s1 \<le> length s"
    by (simp add: s1_def split: list.splits)
  have l2: "length ip \<le> length s1"
    by (auto simp: ip_def length_takeWhile_le split: list.splits)
  have "ip \<noteq> [] \<and> (r = drop (length ip) s1 \<or> (\<exists>a b. r = drop a (drop b (drop (length ip) s1))))"
    using assms
    unfolding scan_number_def Let_def case_prod_beta s1_def[symmetric] ip_def[symmetric]
    by (simp split: if_splits) blast+
  then have "ip \<noteq> []" and "length r \<le> length s1 - length ip" by auto
  with l1 l2 show ?thesis by (cases ip) auto
qed

lemma length_skip_ws: "length (skip_ws s) \<le> length s"
  by (simp add: skip_ws_def length_dropWhile_le)

lemma skip_ws_Cons_length: "skip_ws r = d # r1 \<Longrightarrow> length r1 < length r"
  using length_skip_ws[of r] by simp

lemma parse_value_step:
  "(\<exists>R0. (\<forall>g. parse_value e (Suc g) s = R0) \<and> R0 \<noteq> Inl Out_Of_Fuel
         \<and> (\<forall>v r. R0 = Inr (v, r) \<longrightarrow> length r < length s))
   \<or> (\<exists>s'. length s' < length s \<and> (\<forall>g. parse_value e (Suc g) s =
        (case parse_members e g [] s' of Inl err \<Rightarrow> Inl err | Inr (kvs, r2) \<Rightarrow> Inr (JObj kvs, r2))))
   \<or> (\<exists>s'. length s' < length s \<and> (\<forall>g. parse_value e (Suc g) s =
        (case parse_elements e g [] s' of Inl err \<Rightarrow> Inl err | Inr (xs, r2) \<Rightarrow> Inr (JList xs, r2))))"
  (is "(\<exists>R0. ?A R0) \<or> ?B \<or> ?C")
proof (cases s)
  case Nil
  then have "?A (Inl JSONDecodeError)" by simp
  then show ?thesis by blast
next
  case (Cons c r)
  show ?thesis
  proof (cases "c = CHR 0x22")
    case True
    let ?R = "case scan_string [] r of Inl err \<Rightarrow> Inl err | Inr (str, r') \<Rightarrow> Inr (JStr str, r')"
    have "\<forall>g. parse_value e (Suc g) s = ?R" using Cons True by simp
    moreover have "?R \<noteq> Inl Out_Of_Fuel"
      using scan_string_fuel[of "[]" r] by (auto split: sum.splits)
    moreover have "\<forall>v r'. ?R = Inr (v, r') \<longrightarrow> length r' < length s"
      using Cons by (auto split: sum.splits dest: scan_string_shorter)
    ultimately have "?A ?R" by blast
    then show ?thesis by blast
  next
    case nq: False
    show ?thesis
    proof (cases "c = CHR ''{''")
      case True
      show ?thesis
      proof (cases "skip_ws r")
        case Nil
        with Cons True have "?A (Inl JSONDecodeError)" by simp
        then show ?thesis by blast
      next
        case sk: (Cons d r1)
        show ?thesis
        proof (cases "d = CHR ''}''")
          case True
          with Cons \<open>c = CHR ''{''\<close> sk skip_ws_Cons_length[OF sk]
          have "?A (Inr (JObj [], r1))" by simp
          then show ?thesis by blast
        next
          case False
          have "length (d # r1) < length s"
            using Cons sk length_skip_ws[of r] by simp
          moreover have "\<forall>g. parse_value e (Suc g) s =
              (case parse_members e g [] (d # r1) of Inl err \<Rightarrow> Inl err
               | Inr (kvs, r2) \<Rightarrow> Inr (JObj kvs, r2))"
            using Cons \<open>c = CHR ''{''\<close> sk False by simp
          ultimately have ?B by blast
          then show ?thesis by blast
        qed
      qed
    next
      case nb: False
      show ?thesis
      proof (cases "c = CHR ''[''")
        case True
        show ?thesis
        proof (cases "skip_ws r")
          case Nil
          with Cons True have "?A (Inl JSONDecodeError)" by simp
          then show ?thesis by blast
        next
          case sk: (Cons d r1)
          show ?thesis
          proof (cases "d = CHR '']''")
            case True
            with Cons \<open>c = CHR ''[''\<close> sk skip_ws_Cons_length[OF sk]
            have "?A (Inr (JList [], r1))" by simp
            then show ?thesis by blast
          next
            case False
            have "length (d # r1) < length s"
              using Cons sk length_skip_ws[of r] by simp
            moreover have "\<forall>g. parse_value e (Suc g) s =
                (case parse_elements e g [] (d # r1) of Inl err \<Rightarrow> Inl err
                 | Inr (xs, r2) \<Rightarrow> Inr (JList xs, r2))"
              using Cons \<open>c = CHR ''[''\<close> sk False by simp
            ultimately have ?C by blast
            then show ?thesis by blast
          qed
        qed
      next
        case nk: False
        let ?R = "parse_value e (Suc 0) s"
        have eq: "\<forall>g. parse_value e (Suc g) s = ?R"
          using Cons nq nb nk by simp
        have "?R \<noteq> Inl Out_Of_Fuel"
          using Cons nq nb nk by (simp split: option.splits)
        moreover have "\<forall>v r'. ?R = Inr (v, r') \<longrightarrow> length r' < length s"
          using Cons nq nb nk
          by (auto split: option.splits if_splits dest: scan_number_shorter)
        ultimately have "?A ?R" using eq by blast
        then show ?thesis by blast
      qed
    qed
  qed
qed

lemma parse_elements_step:
  "(\<forall>g err. parse_value e g s = Inl err \<longrightarrow> parse_elements e (Suc g) acc s = Inl err)
   \<and> (\<forall>v r.
        (\<exists>R0. R0 \<noteq> Inl Out_Of_Fuel \<and> (\<forall>x r'. R0 = Inr (x, r') \<longrightarrow> length r' < length r)
            \<and> (\<forall>g. parse_value e g s = Inr (v, r) \<longrightarrow> parse_elements e (Suc g) acc s = R0))
        \<or> (\<exists>s'. length s' < length r
            \<and> (\<forall>g. parse_value e g s = Inr (v, r)
                   \<longrightarrow> parse_elements e (Suc g) acc s = parse_elements e g (acc @ [v]) s')))"
proof (intro conjI allI)
  fix g err
  show "parse_value e g s = Inl err \<longrightarrow> parse_elements e (Suc g) acc s = Inl err" by simp
next
  fix v r
  let ?A = "\<lambda>R0. R0 \<noteq> Inl Out_Of_Fuel \<and> (\<forall>x r'. R0 = Inr (x, r') \<longrightarrow> length r' < length r)
            \<and> (\<forall>g. parse_value e g s = Inr (v, r) \<longrightarrow> parse_elements e (Suc g) acc s = R0)"
  let ?B = "\<exists>s'. length s' < length r
            \<and> (\<forall>g. parse_value e g s = Inr (v, r)
                   \<longrightarrow> parse_elements e (Suc g) acc s = parse_elements e g (acc @ [v]) s')"
  show "(\<exists>R0. ?A R0) \<or> ?B"
  proof (cases "skip_ws r")
    case Nil
    then have "?A (Inl JSONDecodeError)" by simp
    then show ?thesis by blast
  next
    case sk: (Cons c r1)
    note len = skip_ws_Cons_length[OF sk]
    show ?thesis
    proof (cases "c = CHR '']''")
      case True
      with sk len have "?A (Inr (acc @ [v], r1))" by simp
      then show ?thesis by blast
    next
      case False
      show ?thesis
      proof (cases "c = CHR '',''")
        case True
        have "length (skip_ws r1) < length r" using len length_skip_ws[of r1] by simp
        moreover have "\<forall>g. parse_value e g s = Inr (v, r)
                   \<longrightarrow> parse_elements e (Suc g) acc s = parse_elements e g (acc @ [v]) (skip_ws r1)"
          using sk True by simp
        ultimately have ?B by blast
        then show ?thesis by blast
      next
        case nc: False
        with sk False have "?A (Inl JSONDecodeError)" by simp
        then show ?thesis by blast
      qed
    qed
  qed
qed

lemma parse_members_step:
  "(\<exists>err. err \<noteq> Out_Of_Fuel \<and> (\<forall>g. parse_members e (Suc g) acc s = Inl err))
   \<or> (\<exists>key s1. length s1 < length s
        \<and> (\<forall>g err. parse_value e g s1 = Inl err \<longrightarrow> parse_members e (Suc g) acc s = Inl err)
        \<and> (\<forall>v r.
             (\<exists>R0. R0 \<noteq> Inl Out_Of_Fuel \<and> (\<forall>x r'. R0 = Inr (x, r') \<longrightarrow> length r' < length r)
                 \<and> (\<forall>g. parse_value e g s1 = Inr (v, r) \<longrightarrow> parse_members e (Suc g) acc s = R0))
             \<or> (\<exists>s'. length s' < length r
                 \<and> (\<forall>g. parse_value e g s1 = Inr (v, r)
                        \<longrightarrow> parse_members e (Suc g) acc s
                            = parse_members e g (dict_set acc key v) s'))))"
  (is "?E \<or> ?V")
proof (cases s)
  case Nil
  then have ?E by simp
  then show ?thesis by blast
next
  case (Cons q r)
  show ?thesis
  proof (cases "q = CHR 0x22")
    case False
    with Cons have ?E by simp
    then show ?thesis by blast
  next
    case q: True
    show ?thesis
    proof (cases "scan_string [] r")
      case (Inl err)
      with scan_string_fuel[of "[]" r] have "err \<noteq> Out_Of_Fuel" by simp
      moreover have "\<forall>g. parse_members e (Suc g) acc s = Inl err" using Cons q Inl by simp
      ultimately have ?E by blast
      then show ?thesis by blast
    next
      case (Inr kr)
      obtain key r1 where kr: "kr = (key, r1)" by (cases kr)
      from Inr kr have ss: "scan_string [] r = Inr (key, r1)" by simp
      from scan_string_shorter[OF ss] have l1: "length r1 < length r" .
      show ?thesis
      proof (cases "skip_ws r1")
        case Nil
        with Cons q ss have ?E by simp
        then show ?thesis by blast
      next
        case sk: (Cons c2 r2)
        note l2 = skip_ws_Cons_length[OF sk]
        show ?thesis
        proof (cases "c2 = CHR '':''")
          case False
          with Cons q ss sk have ?E by simp
          then show ?thesis by blast
        next
          case colon: True
          let ?s1 = "skip_ws r2"
          have ls1: "length ?s1 < length s"
            using Cons l1 l2 length_skip_ws[of r2] by simp
          have errs: "\<forall>g err. parse_value e g ?s1 = Inl err
                        \<longrightarrow> parse_members e (Suc g) acc s = Inl err"
            using Cons q ss sk colon by simp
          have conts: "(\<exists>R0. R0 \<noteq> Inl Out_Of_Fuel
                   \<and> (\<forall>x r'. R0 = Inr (x, r') \<longrightarrow> length r' < length r3)
                   \<and> (\<forall>g. parse_value e g ?s1 = Inr (v, r3)
                          \<longrightarrow> parse_members e (Suc g) acc s = R0))
               \<or> (\<exists>s'. length s' < length r3
                   \<and> (\<forall>g. parse_value e g ?s1 = Inr (v, r3)
                          \<longrightarrow> parse_members e (Suc g) acc s
                              = parse_members e g (dict_set acc key v) s'))"
            (is "(\<exists>R0. ?A R0) \<or> ?B") for v r3
          proof (cases "skip_ws r3")
            case Nil
            with Cons q ss sk colon have "?A (Inl JSONDecodeError)" by simp
            then show ?thesis by blast
          next
            case sk3: (Cons c4 r4)
            note l4 = skip_ws_Cons_length[OF sk3]
            show ?thesis
            proof (cases "c4 = CHR ''}''")
              case True
              with Cons q ss sk colon sk3 l4 have "?A (Inr (dict_set acc key v, r4))" by simp
              then show ?thesis by blast
            next
              case False
              show ?thesis
              proof (cases "c4 = CHR '',''")
                case True
                have "length (skip_ws r4) < length r3" using l4 length_skip_ws[of r4] by simp
                moreover have "\<forall>g. parse_value e g ?s1 = Inr (v, r3)
                          \<longrightarrow> parse_members e (Suc g) acc s
                              = parse_members e g (dict_set acc key v) (skip_ws r4)"
                  using Cons q ss sk colon sk3 True by simp
                ultimately have ?B by blast
                then show ?thesis by blast
              next
                case nc: False
                with Cons q ss sk colon sk3 False have "?A (Inl JSONDecodeError)" by simp
                then show ?thesis by blast
              qed
            qed
          qed
          from ls1 errs conts have ?V by blast
          then show ?thesis by blast
        qed
      qed
    qed
  qed
qed

lemma parse_shorter_all:
  "(\<forall>s v r. parse_value e f s = Inr (v, r) \<longrightarrow> length r < length s)
   \<and> (\<forall>acc s x r. parse_elements e f acc s = Inr (x, r) \<longrightarrow> length r < length s)
   \<and> (\<forall>acc s x r. parse_members e f acc s = Inr (x, r) \<longrightarrow> length r < length s)"
proof (induction f)
  case 0
  show ?case by simp
next
  case (Suc f)
  then have V: "\<And>s v r. parse_value e f s = Inr (v, r) \<Longrightarrow> length r < length s"
    and E: "\<And>acc s x r. parse_elements e f acc s = Inr (x, r) \<Longrightarrow> length r < length s"
    and M: "\<And>acc s x r. parse_members e f acc s = Inr (x, r) \<Longrightarrow> length r < length s"
    by blast+
  have 1: "length r < length s" if res: "parse_value e (Suc f) s = Inr (v, r)" for s v r
  proof -
    from parse_value_step[of e s] consider
      (atom) R0 where "\<forall>g. parse_value e (Suc g) s = R0"
          "\<forall>v r. R0 = Inr (v, r) \<longrightarrow> length r < length s"
      | (obj) s' where "length s' < length s"
          "\<forall>g. parse_value e (Suc g) s =
             (case parse_members e g [] s' of Inl err \<Rightarrow> Inl err | Inr (kvs, r2) \<Rightarrow> Inr (JObj kvs, r2))"
      | (lst) s' where "length s' < length s"
          "\<forall>g. parse_value e (Suc g) s =
             (case parse_elements e g [] s' of Inl err \<Rightarrow> Inl err | Inr (xs, r2) \<Rightarrow> Inr (JList xs, r2))"
      by blast
    then show ?thesis
    proof cases
      case atom
      with res show ?thesis by metis
    next
      case obj
      from obj(2) res obtain kvs where "parse_members e f [] s' = Inr (kvs, r)"
        by (auto split: sum.splits)
      from M[OF this] obj(1) show ?thesis by simp
    next
      case lst
      from lst(2) res obtain xs where "parse_elements e f [] s' = Inr (xs, r)"
        by (auto split: sum.splits)
      from E[OF this] lst(1) show ?thesis by simp
    qed
  qed
  have 2: "length r' < length s" if res: "parse_elements e (Suc f) acc s = Inr (x, r')"
    for acc s x r'
  proof (cases "parse_value e f s")
    case (Inl err)
    with parse_elements_step[of e s acc] res show ?thesis by simp
  next
    case (Inr vr)
    obtain v r where vr: "vr = (v, r)" by (cases vr)
    with Inr have pv: "parse_value e f s = Inr (v, r)" by simp
    from V[OF pv] have lr: "length r < length s" .
    from parse_elements_step[of e s acc] consider
      (direct) R0 where "\<forall>x r'. R0 = Inr (x, r') \<longrightarrow> length r' < length r"
          "\<forall>g. parse_value e g s = Inr (v, r) \<longrightarrow> parse_elements e (Suc g) acc s = R0"
      | (again) s' where "length s' < length r"
          "\<forall>g. parse_value e g s = Inr (v, r)
               \<longrightarrow> parse_elements e (Suc g) acc s = parse_elements e g (acc @ [v]) s'"
      by blast
    then show ?thesis
    proof cases
      case direct
      from direct(2) pv res have "R0 = Inr (x, r')" by simp
      with direct(1) lr show ?thesis by fastforce
    next
      case again
      from again(2) pv res have "parse_elements e f (acc @ [v]) s' = Inr (x, r')" by simp
      from E[OF this] again(1) lr show ?thesis by simp
    qed
  qed
  have 3: "length r' < length s" if res: "parse_members e (Suc f) acc s = Inr (x, r')"
    for acc s x r'
  proof -
    from parse_members_step[of e acc s] res obtain key s1 where
      ls1: "length s1 < length s"
      and errs: "\<forall>g err. parse_value e g s1 = Inl err \<longrightarrow> parse_members e (Suc g) acc s = Inl err"
      and conts: "\<forall>v r.
             (\<exists>R0. R0 \<noteq> Inl Out_Of_Fuel \<and> (\<forall>x r'. R0 = Inr (x, r') \<longrightarrow> length r' < length r)
                 \<and> (\<forall>g. parse_value e g s1 = Inr (v, r) \<longrightarrow> parse_members e (Suc g) acc s = R0))
             \<or> (\<exists>s'. length s' < length r
                 \<and> (\<forall>g. parse_value e g s1 = Inr (v, r)
                        \<longrightarrow> parse_members e (Suc g) acc s
                            = parse_members e g (dict_set acc key v) s'))"
      by auto
    show ?thesis
    proof (cases "parse_value e f s1")
      case (Inl err)
      with errs res show ?thesis by simp
    next
      case (Inr vr)
      obtain v r where vr: "vr = (v, r)" by (cases vr)
      with Inr have pv: "parse_value e f s1 = Inr (v, r)" by simp
      from V[OF pv] ls1 have lr: "length r < length s" by simp
      from conts[rule_format, of r v] consider
        (direct) R0 where "\<forall>x r'. R0 = Inr (x, r') \<longrightarrow> length r' < length r"
            "\<forall>g. parse_value e g s1 = Inr (v, r) \<longrightarrow> parse_members e (Suc g) acc s = R0"
        | (again) s' where "length s' < length r"
            "\<forall>g. parse_value e g s1 = Inr (v, r)
                 \<longrightarrow> parse_members e (Suc g) acc s = parse_members e g (dict_set acc key v) s'"
        by blast
      then show ?thesis
      proof cases
        case direct
        from direct(2) pv res have "R0 = Inr (x, r')" by simp
        with direct(1) lr show ?thesis by fastforce
      next
        case again
        from again(2) pv res have "parse_members e f (dict_set acc key v) s' = Inr (x, r')" by simp
        from M[OF this] again(1) lr show ?thesis by simp
      qed
    qed
  qed
  from 1 2 3 show ?case by blast
qed

lemma parse_value_shorter: "parse_value e f s = Inr (v, r) \<Longrightarrow> length r < length s"
  using parse_shorter_all[of e f] by blast

lemmas parse_zero = parse_value.simps(1) parse_elements.simps(1) parse_members.simps(1)

declare parse_value.simps [simp del] parse_elements.simps [simp del] parse_members.simps [simp del]

lemma parse_fuel_all:
  "(\<forall>s. 2 * length s < f \<longrightarrow> parse_value e f s \<noteq> Inl Out_Of_Fuel)
   \<and> (\<forall>acc s. 2 * length s + 1 < f \<longrightarrow> parse_elements e f acc s \<noteq> Inl Out_Of_Fuel)
   \<and> (\<forall>acc s. 2 * length s + 1 < f \<longrightarrow> parse_members e f acc s \<noteq> Inl Out_Of_Fuel)"
proof (induction f)
  case 0
  show ?case by (simp add: parse_zero)
next
  case (Suc f)
  then have V: "\<And>s. 2 * length s < f \<Longrightarrow> parse_value e f s \<noteq> Inl Out_Of_Fuel"
    and E: "\<And>acc s. 2 * length s + 1 < f \<Longrightarrow> parse_elements e f acc s \<noteq> Inl Out_Of_Fuel"
    and M: "\<And>acc s. 2 * length s + 1 < f \<Longrightarrow> parse_members e f acc s \<noteq> Inl Out_Of_Fuel"
    by blast+
  have 1: "parse_value e (Suc f) s \<noteq> Inl Out_Of_Fuel" if big: "2 * length s < Suc f" for s
  proof -
    from parse_value_step[of e s] consider
      (atom) R0 where "\<forall>g. parse_value e (Suc g) s = R0" "R0 \<noteq> Inl Out_Of_Fuel"
      | (obj) s' where "length s' < length s"
          "\<forall>g. parse_value e (Suc g) s =
             (case parse_members e g [] s' of Inl err \<Rightarrow> Inl err | Inr (kvs, r2) \<Rightarrow> Inr (JObj kvs, r2))"
      | (lst) s' where "length s' < length s"
          "\<forall>g. parse_value e (Suc g) s =
             (case parse_elements e g [] s' of Inl err \<Rightarrow> Inl err | Inr (xs, r2) \<Rightarrow> Inr (JList xs, r2))"
      by blast
    then show ?thesis
    proof cases
      case atom
      then show ?thesis by metis
    next
      case obj
      from obj(1) big have "2 * length s' + 1 < f" by simp
      from M[OF this, of "[]"] obj(2) show ?thesis by (auto split: sum.splits)
    next
      case lst
      from lst(1) big have "2 * length s' + 1 < f" by simp
      from E[OF this, of "[]"] lst(2) show ?thesis by (auto split: sum.splits)
    qed
  qed
  have 2: "parse_elements e (Suc f) acc s \<noteq> Inl Out_Of_Fuel" if big: "2 * length s + 1 < Suc f"
    for acc s
  proof (cases "parse_value e f s")
    case (Inl err)
    from big have "2 * length s < f" by simp
    from V[OF this] Inl have "err \<noteq> Out_Of_Fuel" by simp
    with parse_elements_step[of e s acc] Inl show ?thesis by simp
  next
    case (Inr vr)
    obtain v r where vr: "vr = (v, r)" by (cases vr)
    with Inr have pv: "parse_value e f s = Inr (v, r)" by simp
    from parse_value_shorter[OF pv] have lr: "length r < length s" .
    from parse_elements_step[of e s acc] consider
      (direct) R0 where "R0 \<noteq> Inl Out_Of_Fuel"
          "\<forall>g. parse_value e g s = Inr (v, r) \<longrightarrow> parse_elements e (Suc g) acc s = R0"
      | (again) s' where "length s' < length r"
          "\<forall>g. parse_value e g s = Inr (v, r)
               \<longrightarrow> parse_elements e (Suc g) acc s = parse_elements e g (acc @ [v]) s'"
      by blast
    then show ?thesis
    proof cases
      case direct
      with pv show ?thesis by simp
    next
      case again
      from again(1) lr big have "2 * length s' + 1 < f" by simp
      from E[OF this, of "acc @ [v]"] again(2) pv show ?thesis by simp
    qed
  qed
  have 3: "parse_members e (Suc f) acc s \<noteq> Inl Out_Of_Fuel" if big: "2 * length s + 1 < Suc f"
    for acc s
  proof -
    from parse_members_step[of e acc s] consider
      (err) err where "err \<noteq> Out_Of_Fuel" "\<forall>g. parse_members e (Suc g) acc s = Inl err"
      | (val) key s1 where "length s1 < length s"
        "\<forall>g err. parse_value e g s1 = Inl err \<longrightarrow> parse_members e (Suc g) acc s = Inl err"
        "\<forall>v r.
             (\<exists>R0. R0 \<noteq> Inl Out_Of_Fuel \<and> (\<forall>x r'. R0 = Inr (x, r') \<longrightarrow> length r' < length r)
                 \<and> (\<forall>g. parse_value e g s1 = Inr (v, r) \<longrightarrow> parse_members e (Suc g) acc s = R0))
             \<or> (\<exists>s'. length s' < length r
                 \<and> (\<forall>g. parse_value e g s1 = Inr (v, r)
                        \<longrightarrow> parse_members e (Suc g) acc s
                            = parse_members e g (dict_set acc key v) s'))"
      by blast
    then show ?thesis
    proof cases
      case err
      then show ?thesis by simp
    next
      case val
      from val(1) big have b1: "2 * length s1 < f" by simp
      show ?thesis
      proof (cases "parse_value e f s1")
        case (Inl err)
        from V[OF b1] Inl have "err \<noteq> Out_Of_Fuel" by simp
        with val(2) Inl show ?thesis by simp
      next
        case (Inr vr)
        obtain v r where vr: "vr = (v, r)" by (cases vr)
        with Inr have pv: "parse_value e f s1 = Inr (v, r)" by simp
        from parse_value_shorter[OF pv] val(1) have lr: "length r < length s" by simp
        from val(3)[rule_format, of r v] consider
          (direct) R0 where "R0 \<noteq> Inl Out_Of_Fuel"
              "\<forall>g. parse_value e g s1 = Inr (v, r) \<longrightarrow> parse_members e (Suc g) acc s = R0"
          | (again) s' where "length s' < length r"
              "\<forall>g. parse_value e g s1 = Inr (v, r)
                   \<longrightarrow> parse_members e (Suc g) acc s = parse_members e g (dict_set acc key v) s'"
          by blast
        then show ?thesis
        proof cases
          case direct
          with pv show ?thesis by simp
        next
          case again
          from again(1) lr big have "2 * length s' + 1 < f" by simp
          from M[OF this, of "dict_set acc key v"] again(2) pv show ?thesis by simp
        qed
      qed
    qed
  qed
  from 1 2 3 show ?case by blast
qed

text \<open>The calls allowed by \<open>loads\<close> are never used up.\<close>

lemma loads_fuel: "loads e s \<noteq> Inl Out_Of_Fuel"
proof -
  have "2 * length (skip_ws s) < 2 * length s + 1"
    using length_skip_ws[of s] by simp
  with parse_fuel_all[of "2 * length s + 1" e]
  have "parse_value e (2 * length s + 1) (skip_ws s) \<noteq> Inl Out_Of_Fuel" by blast
  then show ?thesis by (auto simp: loads_def split: sum.splits)
qed

lemma parse_mono_Suc:
  "(\<forall>s. parse_value e f s \<noteq> Inl Out_Of_Fuel \<longrightarrow> parse_value e (Suc f) s = parse_value e f s)
   \<and> (\<forall>acc s. parse_elements e f acc s \<noteq> Inl Out_Of_Fuel
         \<longrightarrow> parse_elements e (Suc f) acc s = parse_elements e f acc s)
   \<and> (\<forall>acc s. parse_members e f acc s \<noteq> Inl Out_Of_Fuel
         \<longrightarrow> parse_members e (Suc f) acc s = parse_members e f acc s)"
proof (induction f)
  case 0
  show ?case by (simp add: parse_zero)
next
  case (Suc f)
  then have V: "\<And>s. parse_value e f s \<noteq> Inl Out_Of_Fuel
                  \<Longrightarrow> parse_value e (Suc f) s = parse_value e f s"
    and E: "\<And>acc s. parse_elements e f acc s \<noteq> Inl Out_Of_Fuel
                  \<Longrightarrow> parse_elements e (Suc f) acc s = parse_elements e f acc s"
    and M: "\<And>acc s. parse_members e f acc s \<noteq> Inl Out_Of_Fuel
                  \<Longrightarrow> parse_members e (Suc f) acc s = parse_members e f acc s"
    by blast+
  have 1: "parse_value e (Suc (Suc f)) s = parse_value e (Suc f) s"
    if ok: "parse_value e (Suc f) s \<noteq> Inl Out_Of_Fuel" for s
  proof -
    from parse_value_step[of e s] consider
      (atom) R0 where "\<forall>g. parse_value e (Suc g) s = R0"
      | (obj) s' where
          "\<forall>g. parse_value e (Suc g) s =
             (case parse_members e g [] s' of Inl err \<Rightarrow> Inl err | Inr (kvs, r2) \<Rightarrow> Inr (JObj kvs, r2))"
      | (lst) s' where
          "\<forall>g. parse_value e (Suc g) s =
             (case parse_elements e g [] s' of Inl err \<Rightarrow> Inl err | Inr (xs, r2) \<Rightarrow> Inr (JList xs, r2))"
      by blast
    then show ?thesis
    proof cases
      case atom
      then show ?thesis by metis
    next
      case obj
      from obj ok have "parse_members e f [] s' \<noteq> Inl Out_Of_Fuel" by (auto split: sum.splits)
      from M[OF this] obj show ?thesis by simp
    next
      case lst
      from lst ok have "parse_elements e f [] s' \<noteq> Inl Out_Of_Fuel" by (auto split: sum.splits)
      from E[OF this] lst show ?thesis by simp
    qed
  qed
  have 2: "parse_elements e (Suc (Suc f)) acc s = parse_elements e (Suc f) acc s"
    if ok: "parse_elements e (Suc f) acc s \<noteq> Inl Out_Of_Fuel" for acc s
  proof (cases "parse_value e f s")
    case (Inl err)
    with parse_elements_step[of e s acc] ok have "err \<noteq> Out_Of_Fuel" by auto
    with Inl V[of s] have "parse_value e (Suc f) s = Inl err" by simp
    with Inl parse_elements_step[of e s acc] show ?thesis by simp
  next
    case (Inr vr)
    obtain v r where vr: "vr = (v, r)" by (cases vr)
    with Inr have pv: "parse_value e f s = Inr (v, r)" by simp
    with V[of s] have pv': "parse_value e (Suc f) s = Inr (v, r)" by simp
    from parse_elements_step[of e s acc] consider
      (direct) R0 where
          "\<forall>g. parse_value e g s = Inr (v, r) \<longrightarrow> parse_elements e (Suc g) acc s = R0"
      | (again) s' where
          "\<forall>g. parse_value e g s = Inr (v, r)
               \<longrightarrow> parse_elements e (Suc g) acc s = parse_elements e g (acc @ [v]) s'"
      by blast
    then show ?thesis
    proof cases
      case direct
      with pv pv' show ?thesis by simp
    next
      case again
      from again pv ok have "parse_elements e f (acc @ [v]) s' \<noteq> Inl Out_Of_Fuel" by simp
      from E[OF this] again pv pv' show ?thesis by simp
    qed
  qed
  have 3: "parse_members e (Suc (Suc f)) acc s = parse_members e (Suc f) acc s"
    if ok: "parse_members e (Suc f) acc s \<noteq> Inl Out_Of_Fuel" for acc s
  proof -
    from parse_members_step[of e acc s] consider
      (err) err where "\<forall>g. parse_members e (Suc g) acc s = Inl err"
      | (val) key s1 where
        "\<forall>g err. parse_value e g s1 = Inl err \<longrightarrow> parse_members e (Suc g) acc s = Inl err"
        "\<forall>v r.
             (\<exists>R0. R0 \<noteq> Inl Out_Of_Fuel \<and> (\<forall>x r'. R0 = Inr (x, r') \<longrightarrow> length r' < length r)
                 \<and> (\<forall>g. parse_value e g s1 = Inr (v, r) \<longrightarrow> parse_members e (Suc g) acc s = R0))
             \<or> (\<exists>s'. length s' < length r
                 \<and> (\<forall>g. parse_value e g s1 = Inr (v, r)
                        \<longrightarrow> parse_members e (Suc g) acc s
                            = parse_members e g (dict_set acc key v) s'))"
      by blast
    then show ?thesis
    proof cases
      case err
      then show ?thesis by simp
    next
      case val
      show ?thesis
      proof (cases "parse_value e f s1")
        case (Inl err)
        with val(1) ok have "err \<noteq> Out_Of_Fuel" by auto
        with Inl V[of s1] have "parse_value e (Suc f) s1 = Inl err" by simp
        with Inl val(1) show ?thesis by simp
      next
        case (Inr vr)
        obtain v r where vr: "vr = (v, r)" by (cases vr)
        with Inr have pv: "parse_value e f s1 = Inr (v, r)" by simp
        with V[of s1] have pv': "parse_value e (Suc f) s1 = Inr (v, r)" by simp
        from val(2)[rule_format, of r v] consider
          (direct) R0 where
              "\<forall>g. parse_value e g s1 = Inr (v, r) \<longrightarrow> parse_members e (Suc g) acc s = R0"
          | (again) s' where
              "\<forall>g. parse_value e g s1 = Inr (v, r)
                   \<longrightarrow> parse_members e (Suc g) acc s = parse_members e g (dict_set acc key v) s'"
          by blast
        then show ?thesis
        proof cases
          case direct
          with pv pv' show ?thesis by simp
        next
          case again
          from again pv ok have "parse_members e f (dict_set acc key v) s' \<noteq> Inl Out_Of_Fuel"
            by simp
          from M[OF this] again pv pv' show ?thesis by simp
        qed
      qed
    qed
  qed
  from 1 2 3 show ?case by blast
qed

lemma parse_value_mono:
  "parse_value e f s \<noteq> Inl Out_Of_Fuel \<Longrightarrow> parse_value e (f + k) s = parse_value e f s"
proof (induction k)
  case 0
  show ?case by simp
next
  case (Suc k)
  then have "parse_value e (f + k) s \<noteq> Inl Out_Of_Fuel" by simp
  with parse_mono_Suc[of e "f + k"] have "parse_value e (Suc (f + k)) s = parse_value e (f + k) s"
    by blast
  with Suc show ?case by simp
qed

text \<open>Loading what \<open>json.dumps\<close> printed gives the value back, its objects in key order.\<close>

lemma loads_dumps:
  assumes "printable j"
  shows "loads e (dumps j) = Inr (canon j)"
proof -
  from printable_parses[OF assms, of e] obtain f0 where
    f0: "\<forall>f\<ge>f0. \<forall>level rest. number_end rest \<longrightarrow>
        parse_value e f (dumps_at level j @ rest) = Inr (canon j, rest)"
    unfolding parses_def by blast
  let ?t = "dumps j"
  let ?f = "2 * length ?t + 1"
  have start: "skip_ws ?t = ?t"
  proof (cases ?t)
    case Nil
    then show ?thesis by (simp add: skip_ws_def)
  next
    case (Cons c cs)
    with dumps_at_start[OF assms, of 0] have "value_start c" by (simp add: dumps_def)
    then have "\<not> json_ws c" by (auto simp: value_start_def json_ws_def is_digit_def)
    with Cons show ?thesis by (simp add: skip_ws_def)
  qed
  have nof: "parse_value e ?f ?t \<noteq> Inl Out_Of_Fuel"
    using parse_fuel_all[of ?f e] by simp
  have "parse_value e (?f + f0) ?t = Inr (canon j, [])"
    using f0[rule_format, of "?f + f0" "[]" 0] by (simp add: number_end_def dumps_def)
  with parse_value_mono[OF nof, of f0] have "parse_value e ?f ?t = Inr (canon j, [])" by simp
  moreover have "skip_ws [] = []" by (simp add: skip_ws_def)
  ultimately show ?thesis by (simp add: loads_def start)
qed

section \<open>Finding the embedded block\<close>

lemma last_close_none: "CHR ''}'' \<notin> set tl_text \<Longrightarrow> last_close tl_text i best = best"
  by (induction tl_text arbitrary: i best) auto

lemma last_close_last:
  assumes "tail_ok tl_text" and "CHR ''}'' \<notin> set tl_text"
  shows "last_close (xs @ CHR ''}'' # tl_text) i best = Some (i + length xs + 1)"
proof (induction xs arbitrary: i best)
  case Nil
  from assms show ?case by (simp add: last_close_none)
next
  case (Cons c cs)
  show ?case by (simp add: Cons.IH)
qed

lemma occurs_drop:
  "i < length s \<Longrightarrow> startswith (drop i s) pat \<Longrightarrow> occurs pat s"
proof (induction s arbitrary: i)
  case Nil
  then show ?case by simp
next
  case (Cons c cs)
  show ?case
  proof (cases i)
    case 0
    with Cons.prems show ?thesis by simp
  next
    case (Suc k)
    with Cons.prems have "k < length cs \<or> cs = []" by auto
    with Cons Suc show ?thesis by auto
  qed
qed

lemma state_search_skip:
  assumes "\<And>i. i < length pre \<Longrightarrow> \<not> startswith (drop i pre @ m) STATE_START"
  shows "state_search (pre @ m) = state_search m"
  using assms
proof (induction pre)
  case Nil
  show ?case by simp
next
  case (Cons c cs)
  from Cons.prems[of 0] have "match_here (c # cs @ m) = None" by (simp add: match_here_def)
  moreover have "state_search (cs @ m) = state_search m"
  proof (rule Cons.IH)
    fix i assume "i < length cs"
    with Cons.prems[of "Suc i"] show "\<not> startswith (drop i cs @ m) STATE_START" by simp
  qed
  ultimately show ?case by simp
qed

lemma newline_not_in_start: "CHR 0x0A \<notin> set STATE_START"
  by (simp add: STATE_START_def)

lemma length_STATE_START: "length STATE_START = 30"
  by (simp add: STATE_START_def)

lemma no_straddle:
  assumes no: "\<not> occurs STATE_START (pre @ nl)" and i: "i < length (pre @ nl)"
  shows "\<not> startswith (drop i (pre @ nl) @ STATE_START @ m) STATE_START"
proof
  let ?x = "drop i (pre @ nl)"
  assume sw: "startswith (?x @ STATE_START @ m) STATE_START"
  from i have xne: "?x \<noteq> []" by (simp only: drop_eq_Nil not_le simp_thms)
  from i have "last ?x = last (pre @ nl)" by (rule last_drop)
  then have lastx: "last ?x = CHR 0x0A" by (simp add: nl_def)
  show False
  proof (cases "30 \<le> length ?x")
    case True
    with sw have "startswith ?x STATE_START"
      by (simp add: startswith_def length_STATE_START)
    from occurs_drop[OF i this] no show False by simp
  next
    case False
    with sw have "?x @ take (30 - length ?x) (STATE_START @ m) = STATE_START"
      by (simp add: startswith_def length_STATE_START)
    then have "set ?x \<subseteq> set STATE_START" by (metis set_append Un_upper1)
    moreover from xne lastx have "CHR 0x0A \<in> set ?x" by (metis last_in_set)
    ultimately show False using newline_not_in_start by blast
  qed
qed

lemma state_search_prose:
  assumes no: "\<not> occurs STATE_START (pre @ nl)"
  shows "state_search ((pre @ nl) @ STATE_START @ m) = state_search (STATE_START @ m)"
  by (rule state_search_skip) (rule no_straddle[OF no])

lemma isspace_newline: "py_isspace (CHR 0x0A)"
  by (simp add: py_isspace_def)

lemma not_isspace_fence: "\<not> py_isspace (CHR ''`'')" "\<not> py_isspace (CHR ''{'')" "\<not> py_isspace (CHR ''<'')"
  by (simp_all add: py_isspace_def)

lemma block_tail:
  "tail_ok (nl @ ''```'' @ nl @ STATE_END @ nl)"
  "CHR ''}'' \<notin> set (nl @ ''```'' @ nl @ STATE_END @ nl)"
  by (simp_all add: tail_ok_def after_ws_lit_def nl_def STATE_END_def startswith_def
      py_isspace_def)

lemma match_here_block:
  "match_here (STATE_START @ nl @ ''```json'' @ nl @ (CHR ''{'' # xs @ ''}'')
               @ nl @ ''```'' @ nl @ STATE_END @ nl)
   = Some (CHR ''{'' # xs @ ''}'')"
proof -
  let ?T = "nl @ ''```'' @ nl @ STATE_END @ nl"
  let ?b = "xs @ CHR ''}'' # ?T"
  let ?X = "nl @ ''```json'' @ nl @ (CHR ''{'' # ?b)"
  have doc: "STATE_START @ nl @ ''```json'' @ nl @ (CHR ''{'' # xs @ ''}'')
               @ nl @ ''```'' @ nl @ STATE_END @ nl = STATE_START @ ?X"
    by simp
  have sw: "startswith (STATE_START @ ?X) STATE_START"
    by (simp add: startswith_def)
  have dr: "drop (length STATE_START) (STATE_START @ ?X) = ?X"
    by simp
  have fence: "after_ws_lit ''```json'' ?X = Some (nl @ (CHR ''{'' # ?b))"
    by (simp add: after_ws_lit_def nl_def isspace_newline not_isspace_fence startswith_def)
  have brace: "dropWhile py_isspace (nl @ (CHR ''{'' # ?b)) = CHR ''{'' # ?b"
    by (simp add: nl_def isspace_newline not_isspace_fence)
  have lc: "last_close ?b 0 None = Some (length xs + 1)"
    using last_close_last[OF block_tail, of xs 0 None] by simp
  have tk: "take (length xs + 1) ?b = xs @ ''}''"
    by simp
  have "match_here (STATE_START @ ?X) = Some (CHR ''{'' # take (length xs + 1) ?b)"
    unfolding match_here_def
    by (simp only: sw dr fence brace lc simp_thms if_False if_True option.case list.case)
  with tk show ?thesis unfolding doc by simp
qed

lemma serialize_markdown_parts:
  "serialize_markdown s =
     prose s @ STATE_START @ nl @ ''```json'' @ nl @ dumps (JObj (json_of_state s))
       @ nl @ ''```'' @ nl @ STATE_END @ nl"
  by (simp add: serialize_markdown_def prose_def prose_lines_def)

lemma dumps_object_shape: "kvs \<noteq> [] \<Longrightarrow> \<exists>xs. dumps (JObj kvs) = CHR ''{'' # xs @ ''}''"
  by (simp add: dumps_def)

lemma state_search_match: "match_here s = Some g \<Longrightarrow> state_search s = Some g"
  by (cases s) (simp_all add: match_here_def startswith_def STATE_START_def)

lemma state_search_document:
  assumes "\<not> occurs STATE_START (prose s)"
  shows "state_search (serialize_markdown s) = Some (dumps (JObj (json_of_state s)))"
proof -
  let ?d = "dumps (JObj (json_of_state s))"
  have "json_of_state s \<noteq> []" by (simp add: json_of_state_def)
  from dumps_object_shape[OF this] obtain xs where xs: "?d = CHR ''{'' # xs @ ''}''" by blast
  let ?m = "nl @ ''```json'' @ nl @ ?d @ nl @ ''```'' @ nl @ STATE_END @ nl"
  have "match_here (STATE_START @ ?m) = Some ?d"
    unfolding xs by (rule match_here_block)
  then have found: "state_search (STATE_START @ ?m) = Some ?d" by (rule state_search_match)
  from assms have "\<not> occurs STATE_START (join nl (prose_lines s) @ nl)" by (simp add: prose_def)
  from state_search_prose[OF this, of ?m] found
  have "state_search ((join nl (prose_lines s) @ nl) @ STATE_START @ ?m) = Some ?d" by simp
  then show ?thesis by (simp only: serialize_markdown_parts prose_def)
qed

section \<open>Coercing the printed state\<close>

lemma map_of_sorted:
  "distinct (map fst kvs) \<Longrightarrow> map_of (sort_key fst kvs) = map_of kvs"
  by (rule map_of_inject_set[THEN iffD2]) (simp_all add: distinct_map)

lemma dict_get_sorted:
  "distinct (map fst kvs) \<Longrightarrow> dict_get (sort_key fst kvs) k d = dict_get kvs k d"
  by (simp add: dict_get_def map_of_sorted)

lemma dict_get_none_sorted:
  "distinct (map fst kvs) \<Longrightarrow> dict_get_none (sort_key fst kvs) k = dict_get_none kvs k"
  by (simp add: dict_get_none_def dict_get_sorted)

lemma canon_percent: "canon (json_of_percent p) = json_of_percent p"
  by (cases p) (auto simp: json_of_percent_def split: pyint.splits)

lemma as_pyint_percent: "as_pyint (json_of_percent p) = p"
  by (cases p) (auto simp: json_of_percent_def split: pyint.splits)

lemma canon_elements_strings: "canon_elements (map JStr xs) = map JStr xs"
  by (induction xs) simp_all

lemma normalize_loop_kept:
  "distinct xs \<Longrightarrow> list_all kept xs \<Longrightarrow> set xs \<inter> seen = {}
   \<Longrightarrow> normalize_loop xs result seen = result @ xs"
proof (induction xs arbitrary: result seen)
  case Nil
  show ?case by simp
next
  case (Cons x xs)
  from Cons.prems have x: "strip x = x" "x \<noteq> []" "x \<notin> seen" by (auto simp: kept_def)
  have "normalize_loop xs (result @ [x]) (insert x seen) = (result @ [x]) @ xs"
    using Cons.prems by (intro Cons.IH) auto
  with x show ?case by (simp add: Let_def)
qed

lemma normalize_texts:
  "wf_texts xs \<Longrightarrow> normalize_text_items_json e (JList (canon_elements (map JStr xs))) = Inr xs"
proof -
  assume wf: "wf_texts xs"
  have m: "map (py_str e) (map JStr xs) = xs" by (induction xs) simp_all
  from wf have "normalize_loop xs [] {} = [] @ xs"
    by (intro normalize_loop_kept) (simp_all add: wf_texts_def)
  with m show ?thesis by (simp add: canon_elements_strings)
qed

lemma canon_item:
  "canon (json_of_item it) =
     JObj (sort_key fst [(''id'', JInt (int (i_id it))), (''description'', JStr (i_description it)),
                          (''status'', JStr (i_status it))])"
  by (simp add: json_of_item_def)

lemma coerce_item_loop_items:
  "list_all (\<lambda>it. kept (i_description it) \<and> i_status it \<in> VALID_STATUSES) items
   \<Longrightarrow> coerce_item_loop e (canon_elements (map json_of_item items))
       = map (\<lambda>it. (i_description it, i_status it)) items"
proof (induction items)
  case Nil
  show ?case by simp
next
  case (Cons it items)
  from Cons.prems have d: "strip (i_description it) = i_description it" "i_description it \<noteq> []"
    and v: "i_status it \<in> VALID_STATUSES" by (auto simp: kept_def)
  from v have sv: "strip (i_status it) = i_status it"
    by (auto simp: VALID_STATUSES_def strip_def strip_chars_def py_isspace_def)
  have g1: "dict_get (sort_key fst [(''id'', JInt (int (i_id it))),
                (''description'', JStr (i_description it)), (''status'', JStr (i_status it))])
              ''description'' dd = JStr (i_description it)" for dd
    by (subst dict_get_sorted) (simp_all add: dict_get_def)
  have g2: "dict_get (sort_key fst [(''id'', JInt (int (i_id it))),
                (''description'', JStr (i_description it)), (''status'', JStr (i_status it))])
              ''status'' dd = JStr (i_status it)" for dd
    by (subst dict_get_sorted) (simp_all add: dict_get_def)
  from Cons have "coerce_item_loop e (canon_elements (map json_of_item items))
       = map (\<lambda>it. (i_description it, i_status it)) items" by simp
  then show ?case
    by (simp add: canon_item g1 g2 d v sv del: sort_key_simps)
qed

lemma enumerate_items:
  "map i_id items = [k..<k + length items]
   \<Longrightarrow> map (\<lambda>(idx, (d, st)). \<lparr>i_id = idx, i_description = d, i_status = st\<rparr>)
         (enumerate k (map (\<lambda>it. (i_description it, i_status it)) items)) = items"
proof (induction items arbitrary: k)
  case Nil
  show ?case by simp
next
  case (Cons it items)
  have "[k..<k + length (it # items)] = k # [Suc k..<Suc k + length items]"
    by (subst upt_rec) simp
  with Cons.prems have "i_id it # map i_id items = k # [Suc k..<Suc k + length items]"
    by simp
  then have hd: "i_id it = k" and tl: "map i_id items = [Suc k..<Suc k + length items]" by simp_all
  from Cons.IH[OF tl] hd show ?case by simp
qed

lemma coerce_item_list_items:
  assumes "wf_items items"
  shows "coerce_item_list e (JList (canon_elements (map json_of_item items))) = items"
proof -
  from assms have ids: "map i_id items = [Suc 0..<Suc 0 + length items]"
    and ok: "list_all (\<lambda>it. kept (i_description it) \<and> i_status it \<in> VALID_STATUSES) items"
    by (simp_all add: wf_items_def)
  show ?thesis
    by (simp add: coerce_item_list_def coerce_item_loop_items[OF ok] enumerate_items[OF ids])
qed

lemma canon_progress:
  "canon (json_of_progress en) =
     JObj (sort_key fst [(''timestamp'', JStr (p_timestamp en)), (''message'', JStr (p_message en)),
                          (''percent_complete'', json_of_percent (p_percent en))])"
  by (simp add: json_of_progress_def canon_percent)

lemma coerce_progress_loop_entries:
  "list_all (\<lambda>en. kept (p_timestamp en) \<and> kept (p_message en)) entries
   \<Longrightarrow> coerce_progress_loop e t (canon_elements (map json_of_progress entries)) = (entries, t)"
proof (induction entries)
  case Nil
  show ?case by simp
next
  case (Cons en entries)
  let ?kvs = "[(''timestamp'', JStr (p_timestamp en)), (''message'', JStr (p_message en)),
               (''percent_complete'', json_of_percent (p_percent en))]"
  from Cons.prems have ts: "strip (p_timestamp en) = p_timestamp en" "p_timestamp en \<noteq> []"
    and msg: "strip (p_message en) = p_message en" "p_message en \<noteq> []"
    by (auto simp: kept_def)
  have g1: "dict_get (sort_key fst ?kvs) ''message'' dd = JStr (p_message en)" for dd
    by (subst dict_get_sorted) (simp_all add: dict_get_def)
  have g2: "dict_get (sort_key fst ?kvs) ''timestamp'' dd = JStr (p_timestamp en)" for dd
    by (subst dict_get_sorted) (simp_all add: dict_get_def)
  have g3: "dict_get_none (sort_key fst ?kvs) ''percent_complete'' = json_of_percent (p_percent en)"
    by (subst dict_get_none_sorted) (simp_all add: dict_get_none_def dict_get_def)
  from Cons have "coerce_progress_loop e t (canon_elements (map json_of_progress entries))
       = (entries, t)" by simp
  then show ?case
    by (simp add: canon_progress g1 g2 g3 ts msg text_or_now_def as_pyint_percent
        del: sort_key_simps)
qed

lemma canon_reflection:
  "canon (json_of_reflection r) =
     JObj (sort_key fst [(''timestamp'', JStr (r_timestamp r)), (''summary'', JStr (r_summary r)),
           (''risks'', JList (canon_elements (map JStr (r_risks r)))),
           (''next_actions'', JList (canon_elements (map JStr (r_next_actions r))))])"
  by (simp add: json_of_reflection_def)

lemma coerce_reflections_loop_entries:
  "list_all (\<lambda>r. kept (r_timestamp r) \<and> kept (r_summary r)
                       \<and> wf_texts (r_risks r) \<and> wf_texts (r_next_actions r)) rs
   \<Longrightarrow> coerce_reflections_loop e t (canon_elements (map json_of_reflection rs)) = Inr (rs, t)"
proof (induction rs)
  case Nil
  show ?case by simp
next
  case (Cons r rs)
  let ?kvs = "[(''timestamp'', JStr (r_timestamp r)), (''summary'', JStr (r_summary r)),
           (''risks'', JList (canon_elements (map JStr (r_risks r)))),
           (''next_actions'', JList (canon_elements (map JStr (r_next_actions r))))]"
  from Cons.prems have ts: "strip (r_timestamp r) = r_timestamp r" "r_timestamp r \<noteq> []"
    and sm: "strip (r_summary r) = r_summary r" "r_summary r \<noteq> []"
    and wr: "wf_texts (r_risks r)" and wn: "wf_texts (r_next_actions r)"
    by (auto simp: kept_def)
  have g1: "dict_get (sort_key fst ?kvs) ''summary'' dd = JStr (r_summary r)" for dd
    by (subst dict_get_sorted) (simp_all add: dict_get_def)
  have g2: "dict_get (sort_key fst ?kvs) ''timestamp'' dd = JStr (r_timestamp r)" for dd
    by (subst dict_get_sorted) (simp_all add: dict_get_def)
  have g3: "dict_get_none (sort_key fst ?kvs) ''risks''
              = JList (canon_elements (map JStr (r_risks r)))"
    by (subst dict_get_none_sorted) (simp_all add: dict_get_none_def dict_get_def)
  have g4: "dict_get_none (sort_key fst ?kvs) ''next_actions''
              = JList (canon_elements (map JStr (r_next_actions r)))"
    by (subst dict_get_none_sorted) (simp_all add: dict_get_none_def dict_get_def)
  from Cons have "coerce_reflections_loop e t (canon_elements (map json_of_reflection rs))
       = Inr (rs, t)" by simp
  then show ?case
    by (simp add: canon_reflection g1 g2 g3 g4 ts sm text_or_now_def
        normalize_texts[OF wr] normalize_texts[OF wn]
        del: sort_key_simps normalize_text_items_json.simps)
qed

lemma coerce_percent_percent:
  "(case p of None \<Rightarrow> True | Some x \<Rightarrow> 0 \<le> int_of x \<and> int_of x \<le> 100)
   \<Longrightarrow> coerce_percent (json_of_percent p) = p"
  by (cases p) (auto simp: coerce_percent_def as_pyint_percent)

lemma coerce_state_map_of:
  "map_of raw = map_of raw' \<Longrightarrow> coerce_state e t raw = coerce_state e t raw'"
  by (simp add: coerce_state_def dict_get_def dict_get_none_def)

lemma strip_status: "strip ''active'' = ''active''" "strip ''completed'' = ''completed''"
  by (simp_all add: strip_def strip_chars_def py_isspace_def)

lemma coerce_state_printed:
  assumes wf: "wf_state s"
  shows "coerce_state e t (sort_key fst (canon_members (json_of_state s))) = Inr (s, t)"
proof -
  let ?kvs = "canon_members (json_of_state s)"
  have kvs: "?kvs =
     [(''task'', JStr (task s)), (''status'', JStr (status s)),
      (''created_at'', JStr (created_at s)), (''updated_at'', JStr (updated_at s)),
      (''percent_complete'', json_of_percent (percent_complete s)),
      (''steps'', JList (canon_elements (map json_of_item (steps s)))),
      (''subgoals'', JList (canon_elements (map json_of_item (subgoals s)))),
      (''progress_log'', JList (canon_elements (map json_of_progress (progress_log s)))),
      (''reflections'', JList (canon_elements (map json_of_reflection (reflections s))))]"
    by (simp add: json_of_state_def canon_percent)
  have "distinct (map fst ?kvs)" unfolding kvs by simp
  then have "coerce_state e t (sort_key fst ?kvs) = coerce_state e t ?kvs"
    by (intro coerce_state_map_of map_of_sorted)
  moreover have "coerce_state e t ?kvs = Inr (s, t)"
  proof -
    from wf have tk: "strip (task s) = task s"
      and st: "status s = ''active'' \<or> status s = ''completed''"
      and cr: "strip (created_at s) = created_at s" "created_at s \<noteq> []"
      and up: "strip (updated_at s) = updated_at s" "updated_at s \<noteq> []"
      and pc: "case percent_complete s of None \<Rightarrow> True
               | Some x \<Rightarrow> 0 \<le> int_of x \<and> int_of x \<le> 100"
      and stp: "wf_items (steps s)" and sub: "wf_items (subgoals s)"
      and pl: "list_all (\<lambda>en. kept (p_timestamp en) \<and> kept (p_message en)) (progress_log s)"
      and rf: "list_all (\<lambda>r. kept (r_timestamp r) \<and> kept (r_summary r)
                       \<and> wf_texts (r_risks r) \<and> wf_texts (r_next_actions r)) (reflections s)"
      by (simp_all add: wf_state_def stripped_def kept_def)
    from st have sst: "strip (status s) = status s" "status s \<noteq> []"
      "status s \<in> {''active'', ''completed''}"
      by (auto simp: strip_status)
    show ?thesis
      unfolding kvs coerce_state_def
      by (simp add: dict_get_def dict_get_none_def text_or_now_def tk sst cr up
          coerce_percent_percent[OF pc] coerce_item_list_items[OF stp]
          coerce_item_list_items[OF sub] coerce_progress_def
          coerce_progress_loop_entries[OF pl] coerce_reflections_def
          coerce_reflections_loop_entries[OF rf]
          del: insert_iff)
  qed
  ultimately show ?thesis by simp
qed

section \<open>The states the coercer returns\<close>

lemma last_dropWhile: "dropWhile p xs \<noteq> [] \<Longrightarrow> last (dropWhile p xs) = last xs"
  by (induction xs) (auto split: if_splits)

lemma dropWhile_rev_kept:
  assumes y: "y = [] \<or> \<not> p (hd y)" and z: "z = dropWhile p (rev y)"
  shows "dropWhile p (rev z) = rev z"
proof (cases "z = []")
  case True
  then show ?thesis by simp
next
  case False
  with z have yne: "y \<noteq> []" by auto
  from False z have "last z = last (rev y)" by (simp add: last_dropWhile)
  with yne have "last z = hd y" by (simp add: last_rev)
  with y yne have "\<not> p (last z)" by simp
  with False have "\<not> p (hd (rev z))" by (simp add: hd_rev)
  then show ?thesis by (simp add: dropWhile_eq_self_iff)
qed

lemma strip_chars_idem: "strip_chars p (strip_chars p s) = strip_chars p s"
proof -
  have y: "dropWhile p s = [] \<or> \<not> p (hd (dropWhile p s))"
    using hd_dropWhile[of p s] by blast
  have a: "dropWhile p (rev (dropWhile p (rev (dropWhile p s))))
             = rev (dropWhile p (rev (dropWhile p s)))"
    using y by (rule dropWhile_rev_kept[where p = p and y = "dropWhile p s"]) (rule refl)
  have b: "dropWhile p (dropWhile p (rev (dropWhile p s))) = dropWhile p (rev (dropWhile p s))"
    by (rule dropWhile_idem)
  show ?thesis by (simp only: strip_chars_def a b rev_rev_ident)
qed

lemma strip_idem: "strip (strip s) = strip s"
  by (simp add: strip_def strip_chars_idem)

lemma kept_strip_nonempty: "strip x \<noteq> [] \<Longrightarrow> kept (strip x)"
  by (simp add: kept_def strip_idem)

lemma kept_text_or_now:
  "clock_ok e \<Longrightarrow> text_or_now e t (strip x) = (ts, t') \<Longrightarrow> kept ts"
  by (auto simp: text_or_now_def clock_ok_def kept_def strip_idem split: if_splits)

lemma normalize_loop_wf:
  "distinct result \<Longrightarrow> list_all kept result \<Longrightarrow> set result \<subseteq> seen
   \<Longrightarrow> wf_texts (normalize_loop xs result seen)"
proof (induction xs arbitrary: result seen)
  case Nil
  then show ?case by (simp add: wf_texts_def)
next
  case (Cons x xs)
  show ?case
  proof (cases "strip x = [] \<or> strip x \<in> seen")
    case True
    with Cons show ?thesis by (simp add: Let_def)
  next
    case False
    then have k: "kept (strip x)" and fresh: "strip x \<notin> seen" by (simp_all add: kept_strip_nonempty)
    have "wf_texts (normalize_loop xs (result @ [strip x]) (insert (strip x) seen))"
      using Cons.prems k fresh by (intro Cons.IH) auto
    with False show ?thesis by (simp add: Let_def)
  qed
qed

lemma wf_texts_Nil: "wf_texts []"
  by (simp add: wf_texts_def)

lemma normalize_text_items_json_wf:
  "normalize_text_items_json e v = Inr xs \<Longrightarrow> wf_texts xs"
  by (cases v) (auto simp: wf_texts_Nil intro!: normalize_loop_wf split: if_splits)

lemma coerce_item_loop_wf:
  "list_all (\<lambda>(d, st). kept d \<and> st \<in> VALID_STATUSES) (coerce_item_loop e xs)"
proof (induction xs)
  case Nil
  show ?case by simp
next
  case (Cons raw xs)
  have p: "''pending'' \<in> VALID_STATUSES" by (simp add: VALID_STATUSES_def)
  show ?case
  proof (cases raw)
    case (JObj kvs)
    with Cons p show ?thesis by (simp add: Let_def kept_strip_nonempty)
  qed (use Cons p in \<open>simp_all add: Let_def kept_strip_nonempty\<close>)
qed

lemma coerce_item_list_wf: "wf_items (coerce_item_list e raw)"
proof (cases raw)
  case (JList xs)
  let ?ys = "coerce_item_loop e xs"
  let ?mk = "\<lambda>(idx, (d, st)). \<lparr>i_id = idx, i_description = d, i_status = st\<rparr>"
  have ids: "map i_id (map ?mk (enumerate k ?ys)) = [k..<k + length ?ys]" for k
  proof -
    have m: "map i_id (map ?mk zs) = map fst zs" for zs
      by (induction zs) auto
    show ?thesis by (simp only: m map_fst_enumerate)
  qed
  have ok: "list_all (\<lambda>it. kept (i_description it) \<and> i_status it \<in> VALID_STATUSES)
              (map ?mk (enumerate k ys))"
    if "list_all (\<lambda>(d, st). kept d \<and> st \<in> VALID_STATUSES) ys" for k ys
    using that by (induction ys arbitrary: k) auto
  from ids[of "Suc 0"] ok[OF coerce_item_loop_wf, of "Suc 0" e xs] JList
  show ?thesis by (simp add: wf_items_def coerce_item_list_def)
qed (simp_all add: wf_items_def coerce_item_list_def)

lemma coerce_progress_loop_wf:
  "clock_ok e \<Longrightarrow> coerce_progress_loop e t xs = (entries, t')
   \<Longrightarrow> list_all (\<lambda>en. kept (p_timestamp en) \<and> kept (p_message en)) entries"
proof (induction xs arbitrary: t entries t')
  case Nil
  then show ?case by simp
next
  case (Cons entry xs)
  show ?case
  proof (cases entry)
    case (JObj kvs)
    let ?msg = "strip (py_str e (dict_get kvs ''message'' (JStr [])))"
    let ?tx = "strip (py_str e (dict_get kvs ''timestamp'' (JStr [])))"
    obtain ts t1 where tn: "text_or_now e t ?tx = (ts, t1)" by (cases "text_or_now e t ?tx")
    from kept_text_or_now[OF Cons.prems(1) tn] have kts: "kept ts" .
    show ?thesis
    proof (cases "?msg = []")
      case True
      with Cons.prems(2) JObj tn have "coerce_progress_loop e t1 xs = (entries, t')"
        by (simp add: Let_def)
      from Cons.IH[OF Cons.prems(1) this] show ?thesis .
    next
      case False
      obtain others t2 where rest: "coerce_progress_loop e t1 xs = (others, t2)"
        by (cases "coerce_progress_loop e t1 xs")
      with Cons.prems(2) JObj tn False
      have en: "entries = \<lparr>p_timestamp = ts, p_message = ?msg,
                    p_percent = as_pyint (dict_get_none kvs ''percent_complete'')\<rparr> # others"
        by (simp add: Let_def)
      from Cons.IH[OF Cons.prems(1) rest] kts False show ?thesis
        by (simp add: en kept_strip_nonempty)
    qed
  qed (use Cons in \<open>simp_all\<close>)
qed

lemma coerce_reflections_loop_wf:
  "clock_ok e \<Longrightarrow> coerce_reflections_loop e t xs = Inr (rs, t')
   \<Longrightarrow> list_all (\<lambda>r. kept (r_timestamp r) \<and> kept (r_summary r)
                       \<and> wf_texts (r_risks r) \<and> wf_texts (r_next_actions r)) rs"
proof (induction xs arbitrary: t rs t')
  case Nil
  then show ?case by simp
next
  case (Cons entry xs)
  show ?case
  proof (cases entry)
    case (JObj kvs)
    let ?sm = "strip (py_str e (dict_get kvs ''summary'' (JStr [])))"
    let ?tx = "strip (py_str e (dict_get kvs ''timestamp'' (JStr [])))"
    obtain ts t1 where tn: "text_or_now e t ?tx = (ts, t1)" by (cases "text_or_now e t ?tx")
    from kept_text_or_now[OF Cons.prems(1) tn] have kts: "kept ts" .
    show ?thesis
    proof (cases "?sm = []")
      case True
      with Cons.prems(2) JObj tn have "coerce_reflections_loop e t1 xs = Inr (rs, t')"
        by (simp add: Let_def)
      from Cons.IH[OF Cons.prems(1) this] show ?thesis .
    next
      case False
      from Cons.prems(2) JObj tn False obtain risks acts others t2 where
        rk: "normalize_text_items_json e (dict_get_none kvs ''risks'') = Inr risks"
        and na: "normalize_text_items_json e (dict_get_none kvs ''next_actions'') = Inr acts"
        and rest: "coerce_reflections_loop e t1 xs = Inr (others, t2)"
        and en: "rs = \<lparr>r_timestamp = ts, r_summary = ?sm, r_risks = risks,
                        r_next_actions = acts\<rparr> # others"
        by (auto simp: Let_def split: sum.splits)
      from Cons.IH[OF Cons.prems(1) rest] kts False
        normalize_text_items_json_wf[OF rk] normalize_text_items_json_wf[OF na]
      show ?thesis by (simp add: en kept_strip_nonempty)
    qed
  qed (use Cons in \<open>simp_all\<close>)
qed

lemma coerce_percent_range:
  "case coerce_percent v of None \<Rightarrow> True | Some p \<Rightarrow> 0 \<le> int_of p \<and> int_of p \<le> 100"
  by (auto simp: coerce_percent_def split: option.splits)

lemma coerce_state_wf:
  assumes ck: "clock_ok e" and co: "coerce_state e t raw = Inr (s, t')"
  shows "wf_state s"
proof -
  let ?cx = "strip (py_str e (dict_get raw ''created_at'' (JStr [])))"
  let ?ux = "strip (py_str e (dict_get raw ''updated_at'' (JStr [])))"
  let ?sx = "strip (py_str e (dict_get raw ''status'' (JStr ''active'')))"
  obtain created t1 where tn: "text_or_now e t ?cx = (created, t1)"
    by (cases "text_or_now e t ?cx")
  obtain progress t2 where pr:
    "coerce_progress e t1 (dict_get_none raw ''progress_log'') = (progress, t2)"
    by (cases "coerce_progress e t1 (dict_get_none raw ''progress_log'')")
  from co tn pr obtain rs where
    rf: "coerce_reflections e t2 (dict_get_none raw ''reflections'') = Inr (rs, t')"
    and s: "s = \<lparr>task = strip (py_str e (dict_get raw ''task'' (JStr []))),
                 status = (if (if ?sx = [] then ''active'' else ?sx) \<notin> {''active'', ''completed''}
                           then ''active'' else (if ?sx = [] then ''active'' else ?sx)),
                 created_at = created,
                 updated_at = (if ?ux = [] then created else ?ux),
                 percent_complete = coerce_percent (dict_get_none raw ''percent_complete''),
                 steps = coerce_item_list e (dict_get_none raw ''steps''),
                 subgoals = coerce_item_list e (dict_get_none raw ''subgoals''),
                 progress_log = progress, reflections = rs\<rparr>"
    unfolding coerce_state_def by (auto simp: Let_def split: sum.splits)
  from kept_text_or_now[OF ck tn] have kc: "kept created" .
  have ku: "kept (if ?ux = [] then created else ?ux)"
    using kc by (simp add: kept_strip_nonempty)
  have pl: "list_all (\<lambda>en. kept (p_timestamp en) \<and> kept (p_message en)) progress"
  proof (cases "dict_get_none raw ''progress_log''")
    case (JList xs)
    with pr have "coerce_progress_loop e t1 xs = (progress, t2)" by (simp add: coerce_progress_def)
    from coerce_progress_loop_wf[OF ck this] show ?thesis .
  qed (use pr in \<open>auto simp: coerce_progress_def\<close>)
  have rl: "list_all (\<lambda>r. kept (r_timestamp r) \<and> kept (r_summary r)
                       \<and> wf_texts (r_risks r) \<and> wf_texts (r_next_actions r)) rs"
  proof (cases "dict_get_none raw ''reflections''")
    case (JList xs)
    with rf have "coerce_reflections_loop e t2 xs = Inr (rs, t')"
      by (simp add: coerce_reflections_def)
    from coerce_reflections_loop_wf[OF ck this] show ?thesis .
  qed (use rf in \<open>auto simp: coerce_reflections_def\<close>)
  show ?thesis
    unfolding wf_state_def s
    using kc ku pl rl coerce_percent_range[of "dict_get_none raw ''percent_complete''"]
    by (simp add: stripped_def strip_idem coerce_item_list_wf del: insert_iff) auto
qed

section \<open>C2: the round trip through the document\<close>

lemma printable_percent: "printable (json_of_percent p)"
  by (cases p) (auto simp: json_of_percent_def split: pyint.splits)

lemma printable_state: "printable (JObj (json_of_state s))"
  by (auto simp: json_of_state_def printable_percent printable_elements_iff json_of_item_def
      json_of_progress_def json_of_reflection_def)

lemma load_serialized:
  assumes wf: "wf_state s" and clean: "\<not> occurs STATE_START (prose s)"
  shows "load_state_from_markdown e t (serialize_markdown s) = Inr (s, t)"
proof -
  have found: "state_search (serialize_markdown s) = Some (dumps (JObj (json_of_state s)))"
    using clean by (rule state_search_document)
  have "loads e (dumps (JObj (json_of_state s))) = Inr (canon (JObj (json_of_state s)))"
    using printable_state by (rule loads_dumps)
  then have loaded: "loads e (dumps (JObj (json_of_state s)))
      = Inr (JObj (sort_key fst (canon_members (json_of_state s))))"
    by simp
  show ?thesis
    unfolding load_state_from_markdown_def
    by (simp only: found loaded option.case sum.case json.case coerce_state_printed[OF wf])
qed

lemma strip_chars_kept:
  assumes "x \<noteq> []" and "\<not> p (hd x)" and "\<not> p (last x)"
  shows "strip_chars p x = x"
proof -
  from assms have "dropWhile p x = x" by (simp add: dropWhile_eq_self_iff)
  moreover from assms have "dropWhile p (rev x) = rev x"
    by (simp add: dropWhile_eq_self_iff hd_rev)
  ultimately show ?thesis by (simp add: strip_chars_def)
qed

lemma digit_not_space: "is_digit c \<Longrightarrow> \<not> py_isspace c"
  by (auto simp: is_digit_def py_isspace_def)

lemma clock_ok_example_env: "clock_ok example_env"
proof -
  have "strip (CHR ''T'' # show_nat n) = CHR ''T'' # show_nat n" for n
  proof -
    from show_nat_digits[of n] have ne: "show_nat n \<noteq> []"
      and dg: "list_all is_digit (show_nat n)" by simp_all
    from ne dg have "is_digit (last (show_nat n))"
      by (metis last_in_set list_all_iff)
    then have "\<not> py_isspace (last (CHR ''T'' # show_nat n))"
      using ne by (simp add: digit_not_space)
    moreover have "\<not> py_isspace (hd (CHR ''T'' # show_nat n))"
      by (simp add: py_isspace_def)
    ultimately show ?thesis unfolding strip_def by (intro strip_chars_kept) simp_all
  qed
  then show ?thesis by (simp add: clock_ok_def example_env_def)
qed

lemma coerce_two_steps:
  "coerce_state example_env 0 [(''steps'', JList [JStr ''a'', JStr ''b''])]
     = Inr (two_step_state, 1)"
  by code_simp

lemma prose_two_steps: "\<not> occurs STATE_START (prose two_step_state)"
  by code_simp

text \<open>
  C2, as stated, fails: the coercer returns a state whose task text holds the start
  sentinel, a fence and a brace; in its document the search finds that sentinel first, the
  captured group is not JSON and the reload raises \<open>ValueError\<close>.
\<close>

theorem sentinel_in_task_not_reloaded:
  "coerce_state example_env 0 [(''task'', JStr (STATE_START @ ''```json{''))]
     = Inr (marker_state, 1)
   \<and> load_state_from_markdown example_env 1 (serialize_markdown marker_state)
     = Inl (ValueError ''Plan file contains invalid JSON state: invalid'')"
  by code_simp

text \<open>
  C2, amended: for every state \<open>s\<close> that the coercer returns (under a clock that returns
  timestamps) and whose document has no start sentinel in the part before the embedded
  block, serialising \<open>s\<close> and loading the document gives \<open>s\<close> back, equal in every field,
  without reading the clock.
\<close>

theorem load_serialized_coerced:
  assumes "clock_ok e" and "coerce_state e t0 raw = Inr (s, t1)"
    and "\<not> occurs STATE_START (prose s)"
  shows "load_state_from_markdown e t (serialize_markdown s) = Inr (s, t)"
  using coerce_state_wf[OF assms(1,2)] assms(3) by (rule load_serialized)

theorem load_serialized_coerced_witness:
  "clock_ok example_env
   \<and> coerce_state example_env 0 [(''steps'', JList [JStr ''a'', JStr ''b''])]
       = Inr (two_step_state, 1)
   \<and> \<not> occurs STATE_START (prose two_step_state)
   \<and> load_state_from_markdown example_env 7 (serialize_markdown two_step_state)
       = Inr (two_step_state, 7)"
  using load_serialized_coerced[OF clock_ok_example_env coerce_two_steps prose_two_steps, of 7]
    clock_ok_example_env coerce_two_steps prose_two_steps
  by simp

end
